theory Spec2Isabelle
  imports Main
begin

section \<open>The migration engine of numTwo\<close>

text \<open>
  The development follows \<^verbatim>\<open>MigrationManager\<close> (the version with external SQL
  files) and \<^verbatim>\<open>DenoDatabase\<close>. JavaScript numbers that hold versions are
  integers here; every \<^verbatim>\<open>throw\<close> is an \<open>Inl\<close> result; the objects the code
  mutates (the database adapter, the file system that is read) are passed as state and
  returned updated.
\<close>

subsection \<open>Data\<close>

text \<open>\<^verbatim>\<open>up: string | { file: string }\<close>; \<^verbatim>\<open>down\<close> may also be \<^verbatim>\<open>null\<close>.\<close>

datatype sql_source = Inline string | FileRef string

record Migration =
  version :: int
  name :: string
  description :: string
  reversible :: bool
  up :: sql_source
  down :: "sql_source option"

datatype direction = Up | Down

text \<open>
  The code throws plain \<^verbatim>\<open>Error\<close> objects that differ in their message; one
  constructor per message. A constructor with an \<open>error\<close> argument is a message
  that embeds the message of its cause.
\<close>

datatype error =
    FsError string
    \<comment> \<open>\<^verbatim>\<open>readTextFile\<close> rejected, with the path\<close>
  | YamlError
    \<comment> \<open>the parser threw, or its result has no list of migrations\<close>
  | SqliteError string
    \<comment> \<open>the driver rejected a statement\<close>
  | SequenceError int int
    \<comment> \<open>"Migration version sequence error: expected version e, got g"\<close>
  | FileNotFound int string direction string
    \<comment> \<open>"Migration v (name): up file not found: f"\<close>
  | LoadFailed error
    \<comment> \<open>"Failed to load migrations: cause"\<close>
  | SqlFileFailed int direction error
    \<comment> \<open>"Failed to load SQL file for migration v (up): cause"\<close>
  | NoSqlDefined int direction
    \<comment> \<open>"Migration v has no up SQL defined"\<close>
  | VersionNotFound int
    \<comment> \<open>"Migration version v not found"\<close>
  | NotReversible int string
    \<comment> \<open>"Migration v (name) is not reversible. Cannot rollback."\<close>
  | NoRollbackScript int string
    \<comment> \<open>"Migration v (name) has no rollback script defined"\<close>
  | ApplyFailed int error
    \<comment> \<open>"Failed to apply migration v: cause"\<close>
  | RollbackFailed int error
    \<comment> \<open>"Failed to rollback migration v: cause"\<close>

subsection \<open>The SQLite connection\<close>

text \<open>
  The driver is outside the repository. Its connection is modelled by what the engine
  relies on: the rows of the \<^verbatim>\<open>migrations\<close> table (absent until created), the
  application's own tables as an opaque value of type \<open>'d\<close>, and the snapshot a
  physical transaction rolls back to. What a migration script does is a parameter, a
  function on the whole connection: a script may change the application's tables, write
  the \<^verbatim>\<open>migrations\<close> table, and end the transaction itself (its own
  \<^verbatim>\<open>COMMIT\<close> or \<^verbatim>\<open>ROLLBACK\<close>, a conflict clause \<^verbatim>\<open>OR ROLLBACK\<close>); a script
  that fails may leave part of its effects. \<^verbatim>\<open>COMMIT\<close> may be rejected while a
  transaction is open (a deferred constraint that does not hold, given by a second
  parameter); the transaction then stays open.
\<close>

record ledger_row =
  row_version :: int
  row_name :: string
  row_description :: string
  applied_at :: string

record 'd store =
  ledger :: "ledger_row list option"
  data :: 'd

record 'd sqlite =
  live :: "'d store"
  saved :: "'d store option"

text \<open>The statements the code sends to the driver.\<close>

datatype stmt =
    BEGIN_TRANSACTION
  | COMMIT
  | ROLLBACK
  | CREATE_TABLE_IF_NOT_EXISTS_migrations
  | INSERT_INTO_migrations int string string string
  | DELETE_FROM_migrations int
  | Script string

definition sqlite_exec ::
  "(string \<Rightarrow> 'd sqlite \<Rightarrow> string option \<times> 'd sqlite) \<Rightarrow> ('d store \<Rightarrow> string option) \<Rightarrow>
     stmt \<Rightarrow> 'd sqlite \<Rightarrow> string option \<times> 'd sqlite" where
  "sqlite_exec run deferred s c =
    (case s of
       BEGIN_TRANSACTION \<Rightarrow>
         (case saved c of
            Some _ \<Rightarrow> (Some ''cannot start a transaction within a transaction'', c)
          | None \<Rightarrow> (None, c\<lparr>saved := Some (live c)\<rparr>))
     | COMMIT \<Rightarrow>
         (case saved c of
            None \<Rightarrow> (Some ''cannot commit - no transaction is active'', c)
          | Some _ \<Rightarrow>
              (case deferred (live c) of
                 Some msg \<Rightarrow> (Some msg, c)
               | None \<Rightarrow> (None, c\<lparr>saved := None\<rparr>)))
     | ROLLBACK \<Rightarrow>
         (case saved c of
            None \<Rightarrow> (Some ''cannot rollback - no transaction is active'', c)
          | Some s0 \<Rightarrow> (None, c\<lparr>live := s0, saved := None\<rparr>))
     | CREATE_TABLE_IF_NOT_EXISTS_migrations \<Rightarrow>
         (case ledger (live c) of
            None \<Rightarrow> (None, c\<lparr>live := (live c)\<lparr>ledger := Some []\<rparr>\<rparr>)
          | Some _ \<Rightarrow> (None, c))
     | INSERT_INTO_migrations v n d a \<Rightarrow>
         (case ledger (live c) of
            None \<Rightarrow> (Some ''no such table: migrations'', c)
          | Some rows \<Rightarrow>
              if v \<in> set (map row_version rows)
              then (Some ''UNIQUE constraint failed: migrations.version'', c)
              else (None, c\<lparr>live := (live c)\<lparr>ledger := Some (rows @
                     [\<lparr>row_version = v, row_name = n, row_description = d, applied_at = a\<rparr>])\<rparr>\<rparr>))
     | DELETE_FROM_migrations v \<Rightarrow>
         (case ledger (live c) of
            None \<Rightarrow> (Some ''no such table: migrations'', c)
          | Some rows \<Rightarrow>
              (None, c\<lparr>live := (live c)\<lparr>ledger := Some (filter (\<lambda>r. row_version r \<noteq> v) rows)\<rparr>\<rparr>))
     | Script sql \<Rightarrow> run sql c)"

text \<open>\<^verbatim>\<open>SELECT MAX(version) as version FROM migrations\<close>: one row, NULL on an empty table.\<close>

definition select_max_version :: "'d sqlite \<Rightarrow> string + int option" where
  "select_max_version c =
    (case ledger (live c) of
       None \<Rightarrow> Inl ''no such table: migrations''
     | Some rows \<Rightarrow>
         Inr (if rows = [] then None else Some (Max (set (map row_version rows)))))"

subsection \<open>The environment of a manager\<close>

text \<open>
  What the manager is constructed with and what lies outside it: the file system, whose
  content may differ from one read to the next (\<open>fs env k p\<close> is what the read number
  \<open>k\<close> of path \<open>p\<close> gives, \<open>None\<close> when it rejects); the YAML parser followed by the
  cast to \<^verbatim>\<open>MigrationsFile\<close>; what the driver does with a script (the error it
  reports, if any, and the connection it leaves); the deferred constraint that makes the
  driver reject \<^verbatim>\<open>COMMIT\<close> on a store, if any;
  \<^verbatim>\<open>Date.now().toString()\<close> after a given number of statements; and the path of the
  migration source.
\<close>

record 'd env =
  fs :: "nat \<Rightarrow> string \<Rightarrow> string option"
  yamlParser :: "string \<Rightarrow> Migration list option"
  script :: "string \<Rightarrow> 'd sqlite \<Rightarrow> string option \<times> 'd sqlite"
  commit_check :: "'d store \<Rightarrow> string option"
  date_now :: "nat \<Rightarrow> string"
  migrationsPath :: string

subsection \<open>DenoDatabase\<close>

text \<open>
  The adapter holds the connection and the flag \<^verbatim>\<open>inTransaction\<close>. The field
  \<open>issued\<close> is not in the code: it records, in order, every statement that reached
  the driver through \<^verbatim>\<open>exec\<close> or \<^verbatim>\<open>run\<close>.
\<close>

record 'd DenoDatabase =
  raw :: "'d sqlite"
  inTransaction :: bool
  issued :: "stmt list"

definition exec :: "'d env \<Rightarrow> stmt \<Rightarrow> 'd DenoDatabase \<Rightarrow> (error + unit) \<times> 'd DenoDatabase" where
  "exec env s d =
    (case sqlite_exec (script env) (commit_check env) s (raw d) of
       (Some msg, c) \<Rightarrow> (Inl (SqliteError msg), d\<lparr>raw := c, issued := issued d @ [s]\<rparr>)
     | (None, c) \<Rightarrow> (Inr (), d\<lparr>raw := c, issued := issued d @ [s]\<rparr>))"

definition transaction ::
  "'d env \<Rightarrow> ('d DenoDatabase \<Rightarrow> (error + 'a) \<times> 'd DenoDatabase) \<Rightarrow> 'd DenoDatabase
     \<Rightarrow> (error + 'a) \<times> 'd DenoDatabase" where
  "transaction env fn d =
    (if inTransaction d then fn d
     else
       (case exec env BEGIN_TRANSACTION (d\<lparr>inTransaction := True\<rparr>) of
          (Inl e, d1) \<Rightarrow> (Inl e, d1)
        | (Inr _, d1) \<Rightarrow>
            (case fn d1 of
               (Inr result, d2) \<Rightarrow>
                 (case exec env COMMIT d2 of
                    (Inr _, d3) \<Rightarrow> (Inr result, d3\<lparr>inTransaction := False\<rparr>)
                  | (Inl e, d3) \<Rightarrow>
                      (case exec env ROLLBACK d3 of
                         (Inl e', d4) \<Rightarrow> (Inl e', d4)
                       | (Inr _, d4) \<Rightarrow> (Inl e, d4\<lparr>inTransaction := False\<rparr>)))
             | (Inl e, d2) \<Rightarrow>
                 (case exec env ROLLBACK d2 of
                    (Inl e', d3) \<Rightarrow> (Inl e', d3)
                  | (Inr _, d3) \<Rightarrow> (Inl e, d3\<lparr>inTransaction := False\<rparr>)))))"

text \<open>A connection at rest: the flag is down and no physical transaction is open.\<close>

definition idle :: "'d DenoDatabase \<Rightarrow> bool" where
  "idle d \<longleftrightarrow> \<not> inTransaction d \<and> saved (raw d) = None"

subsection \<open>The ledger\<close>

definition ensureMigrationsTable :: "'d env \<Rightarrow> 'd DenoDatabase \<Rightarrow> (error + unit) \<times> 'd DenoDatabase" where
  "ensureMigrationsTable env d = exec env CREATE_TABLE_IF_NOT_EXISTS_migrations d"

text \<open>\<^verbatim>\<open>return result?.version ?? 0\<close>\<close>

definition getCurrentVersion :: "'d DenoDatabase \<Rightarrow> error + int" where
  "getCurrentVersion d =
    (case select_max_version (raw d) of
       Inl msg \<Rightarrow> Inl (SqliteError msg)
     | Inr None \<Rightarrow> Inr 0
     | Inr (Some v) \<Rightarrow> Inr v)"

definition applied_versions :: "'d DenoDatabase \<Rightarrow> int list" where
  "applied_versions d = (case ledger (live (raw d)) of None \<Rightarrow> [] | Some rows \<Rightarrow> map row_version rows)"

subsection \<open>The migration source\<close>

text \<open>
  The state of a call: the database adapter and the paths read so far, in order. The
  number of reads so far selects what the file system answers next.
\<close>

record 'd world =
  db :: "'d DenoDatabase"
  reads :: "string list"

definition readTextFile :: "'d env \<Rightarrow> string \<Rightarrow> 'd world \<Rightarrow> string option \<times> 'd world" where
  "readTextFile env path w = (fs env (length (reads w)) path, w\<lparr>reads := reads w @ [path]\<rparr>)"

definition resolveSql ::
  "'d env \<Rightarrow> sql_source option \<Rightarrow> int \<Rightarrow> direction \<Rightarrow> 'd world \<Rightarrow> (error + string option) \<times> 'd world" where
  "resolveSql env sql migrationVersion dir w =
    (case sql of
       None \<Rightarrow> (Inr None, w)
     | Some (Inline text) \<Rightarrow> (Inr (Some text), w)
     | Some (FileRef filePath) \<Rightarrow>
         (case readTextFile env filePath w of
            (None, w1) \<Rightarrow> (Inl (SqlFileFailed migrationVersion dir (FsError filePath)), w1)
          | (Some content, w1) \<Rightarrow> (Inr (Some content), w1)))"

text \<open>
  One of the two checks of \<^verbatim>\<open>validateMigrationFiles\<close>: a reference is read only
  when it is an object whose \<^verbatim>\<open>file\<close> is truthy, that is, a non-empty path.
\<close>

definition checkFileReference ::
  "'d env \<Rightarrow> Migration \<Rightarrow> direction \<Rightarrow> sql_source option \<Rightarrow> 'd world \<Rightarrow> (error + unit) \<times> 'd world" where
  "checkFileReference env m dir sql w =
    (case sql of
       Some (FileRef file) \<Rightarrow>
         if file \<noteq> [] then
           (case readTextFile env file w of
              (None, w1) \<Rightarrow> (Inl (FileNotFound (version m) (name m) dir file), w1)
            | (Some _, w1) \<Rightarrow> (Inr (), w1))
         else (Inr (), w)
     | _ \<Rightarrow> (Inr (), w))"

fun validateMigrationFiles :: "'d env \<Rightarrow> Migration list \<Rightarrow> 'd world \<Rightarrow> (error + unit) \<times> 'd world" where
  "validateMigrationFiles env [] w = (Inr (), w)"
| "validateMigrationFiles env (m # migrations) w =
    (case checkFileReference env m Up (Some (up m)) w of
       (Inl e, w1) \<Rightarrow> (Inl e, w1)
     | (Inr _, w1) \<Rightarrow>
         (case checkFileReference env m Down (down m) w1 of
            (Inl e, w2) \<Rightarrow> (Inl e, w2)
          | (Inr _, w2) \<Rightarrow> validateMigrationFiles env migrations w2))"

text \<open>The loop over \<open>i\<close> that compares \<^verbatim>\<open>migrations[i].version\<close> with \<open>i + 1\<close>.\<close>

fun validateSequence :: "nat \<Rightarrow> Migration list \<Rightarrow> error option" where
  "validateSequence i [] = None"
| "validateSequence i (m # migrations) =
    (if version m \<noteq> int i + 1 then Some (SequenceError (int i + 1) (version m))
     else validateSequence (i + 1) migrations)"

text \<open>
  \<^verbatim>\<open>Array.prototype.sort\<close> is stable, and so is \<open>sort_key\<close>. Every error is caught
  and thrown again as "Failed to load migrations".
\<close>

definition loadMigrations :: "'d env \<Rightarrow> 'd world \<Rightarrow> (error + Migration list) \<times> 'd world" where
  "loadMigrations env w =
    (case readTextFile env (migrationsPath env) w of
       (None, w1) \<Rightarrow> (Inl (LoadFailed (FsError (migrationsPath env))), w1)
     | (Some yamlContent, w1) \<Rightarrow>
         (case yamlParser env yamlContent of
            None \<Rightarrow> (Inl (LoadFailed YamlError), w1)
          | Some parsed \<Rightarrow>
              (let migrations = sort_key version parsed in
               case validateSequence 0 migrations of
                 Some e \<Rightarrow> (Inl (LoadFailed e), w1)
               | None \<Rightarrow>
                   (case validateMigrationFiles env migrations w1 of
                      (Inl e, w2) \<Rightarrow> (Inl (LoadFailed e), w2)
                    | (Inr _, w2) \<Rightarrow> (Inr migrations, w2)))))"

definition getLatestVersion :: "'d env \<Rightarrow> 'd world \<Rightarrow> (error + int) \<times> 'd world" where
  "getLatestVersion env w =
    (case loadMigrations env w of
       (Inl e, w1) \<Rightarrow> (Inl e, w1)
     | (Inr migrations, w1) \<Rightarrow>
         (Inr (if length migrations > 0 then Max (set (map version migrations)) else 0), w1))"

subsection \<open>Forward and backward steps\<close>

text \<open>The function given to \<^verbatim>\<open>transaction\<close> by \<^verbatim>\<open>migrateUp\<close>.\<close>

definition applyUnit ::
  "'d env \<Rightarrow> int \<Rightarrow> Migration \<Rightarrow> string \<Rightarrow> 'd DenoDatabase \<Rightarrow> (error + unit) \<times> 'd DenoDatabase" where
  "applyUnit env v migration upSql d =
    (case exec env (Script upSql) d of
       (Inl e, d1) \<Rightarrow> (Inl e, d1)
     | (Inr _, d1) \<Rightarrow>
         exec env (INSERT_INTO_migrations v (name migration) (description migration)
                     (date_now env (length (issued d1)))) d1)"

text \<open>The function given to \<^verbatim>\<open>transaction\<close> by \<^verbatim>\<open>migrateDown\<close>.\<close>

definition rollbackUnit ::
  "'d env \<Rightarrow> int \<Rightarrow> string \<Rightarrow> 'd DenoDatabase \<Rightarrow> (error + unit) \<times> 'd DenoDatabase" where
  "rollbackUnit env v downSql d =
    (case exec env (Script downSql) d of
       (Inl e, d1) \<Rightarrow> (Inl e, d1)
     | (Inr _, d1) \<Rightarrow> exec env (DELETE_FROM_migrations v) d1)"

text \<open>One iteration of the loop of \<^verbatim>\<open>migrateUp\<close>.\<close>

definition migrateUpStep :: "'d env \<Rightarrow> Migration list \<Rightarrow> int \<Rightarrow> 'd world \<Rightarrow> (error + unit) \<times> 'd world" where
  "migrateUpStep env migrations v w =
    (case find (\<lambda>m. version m = v) migrations of
       None \<Rightarrow> (Inl (VersionNotFound v), w)
     | Some migration \<Rightarrow>
         (case resolveSql env (Some (up migration)) v Up w of
            (Inl e, w1) \<Rightarrow> (Inl (ApplyFailed v e), w1)
          | (Inr upSql, w1) \<Rightarrow>
              (case upSql of
                 None \<Rightarrow> (Inl (ApplyFailed v (NoSqlDefined v Up)), w1)
               | Some sql \<Rightarrow>
                   if sql = [] then (Inl (ApplyFailed v (NoSqlDefined v Up)), w1)
                   else
                     (case transaction env (applyUnit env v migration sql) (db w1) of
                        (Inl e, d) \<Rightarrow> (Inl (ApplyFailed v e), w1\<lparr>db := d\<rparr>)
                      | (Inr _, d) \<Rightarrow> (Inr (), w1\<lparr>db := d\<rparr>)))))"

text \<open>\<^verbatim>\<open>!migration.down\<close> holds for \<^verbatim>\<open>null\<close> and for the empty string.\<close>

definition falsy :: "sql_source option \<Rightarrow> bool" where
  "falsy sql = (case sql of None \<Rightarrow> True | Some (Inline text) \<Rightarrow> text = [] | Some (FileRef _) \<Rightarrow> False)"

text \<open>One iteration of the loop of \<^verbatim>\<open>migrateDown\<close>.\<close>

definition migrateDownStep :: "'d env \<Rightarrow> Migration list \<Rightarrow> int \<Rightarrow> 'd world \<Rightarrow> (error + unit) \<times> 'd world" where
  "migrateDownStep env migrations v w =
    (case find (\<lambda>m. version m = v) migrations of
       None \<Rightarrow> (Inl (VersionNotFound v), w)
     | Some migration \<Rightarrow>
         if \<not> reversible migration then (Inl (NotReversible v (name migration)), w)
         else if falsy (down migration) then (Inl (NoRollbackScript v (name migration)), w)
         else
           (case resolveSql env (down migration) v Down w of
              (Inl e, w1) \<Rightarrow> (Inl (RollbackFailed v e), w1)
            | (Inr downSql, w1) \<Rightarrow>
                (case downSql of
                   None \<Rightarrow> (Inl (RollbackFailed v (NoSqlDefined v Down)), w1)
                 | Some sql \<Rightarrow>
                     if sql = [] then (Inl (RollbackFailed v (NoSqlDefined v Down)), w1)
                     else
                       (case transaction env (rollbackUnit env v sql) (db w1) of
                          (Inl e, d) \<Rightarrow> (Inl (RollbackFailed v e), w1\<lparr>db := d\<rparr>)
                        | (Inr _, d) \<Rightarrow> (Inr (), w1\<lparr>db := d\<rparr>)))))"

text \<open>\<^verbatim>\<open>for (let version = ...; version <= targetVersion; version++)\<close>\<close>

function upLoop :: "'d env \<Rightarrow> Migration list \<Rightarrow> int \<Rightarrow> int \<Rightarrow> 'd world \<Rightarrow> (error + unit) \<times> 'd world" where
  "upLoop env migrations v targetVersion w =
    (if v \<le> targetVersion then
       (case migrateUpStep env migrations v w of
          (Inl e, w1) \<Rightarrow> (Inl e, w1)
        | (Inr _, w1) \<Rightarrow> upLoop env migrations (v + 1) targetVersion w1)
     else (Inr (), w))"
  by pat_completeness auto
termination
  by (relation "measure (\<lambda>(env, migrations, v, targetVersion, w). nat (targetVersion + 1 - v))") auto

text \<open>\<^verbatim>\<open>for (let version = currentVersion; version > targetVersion; version--)\<close>\<close>

function downLoop :: "'d env \<Rightarrow> Migration list \<Rightarrow> int \<Rightarrow> int \<Rightarrow> 'd world \<Rightarrow> (error + unit) \<times> 'd world" where
  "downLoop env migrations v targetVersion w =
    (if v > targetVersion then
       (case migrateDownStep env migrations v w of
          (Inl e, w1) \<Rightarrow> (Inl e, w1)
        | (Inr _, w1) \<Rightarrow> downLoop env migrations (v - 1) targetVersion w1)
     else (Inr (), w))"
  by pat_completeness auto
termination
  by (relation "measure (\<lambda>(env, migrations, v, targetVersion, w). nat (v - targetVersion))") auto

definition migrateUp :: "'d env \<Rightarrow> int \<Rightarrow> int \<Rightarrow> Migration list \<Rightarrow> 'd world \<Rightarrow> (error + unit) \<times> 'd world" where
  "migrateUp env currentVersion targetVersion migrations w =
     upLoop env migrations (currentVersion + 1) targetVersion w"

definition migrateDown :: "'d env \<Rightarrow> int \<Rightarrow> int \<Rightarrow> Migration list \<Rightarrow> 'd world \<Rightarrow> (error + unit) \<times> 'd world" where
  "migrateDown env currentVersion targetVersion migrations w =
     downLoop env migrations currentVersion targetVersion w"

subsection \<open>migrateTo\<close>

datatype target = Latest | Version int

text \<open>
  The \<^verbatim>\<open>if (targetVersion === "latest")\<close> of \<^verbatim>\<open>migrateTo\<close>, which calls
  \<^verbatim>\<open>getLatestVersion\<close> and so loads the migration source again.
\<close>

definition resolveTarget :: "'d env \<Rightarrow> target \<Rightarrow> 'd world \<Rightarrow> (error + int) \<times> 'd world" where
  "resolveTarget env targetVersion w =
    (case targetVersion of
       Latest \<Rightarrow> getLatestVersion env w
     | Version n \<Rightarrow> (Inr n, w))"

definition migrateTo :: "'d env \<Rightarrow> target \<Rightarrow> 'd world \<Rightarrow> (error + unit) \<times> 'd world" where
  "migrateTo env targetVersion w =
    (case loadMigrations env w of
       (Inl e, w1) \<Rightarrow> (Inl e, w1)
     | (Inr migrations, w1) \<Rightarrow>
         (case getCurrentVersion (db w1) of
            Inl e \<Rightarrow> (Inl e, w1)
          | Inr currentVersion \<Rightarrow>
              (case resolveTarget env targetVersion w1 of
                 (Inl e, w2) \<Rightarrow> (Inl e, w2)
               | (Inr actualTarget, w2) \<Rightarrow>
                   if currentVersion = actualTarget then (Inr (), w2)
                   else if currentVersion < actualTarget
                   then migrateUp env currentVersion actualTarget migrations w2
                   else migrateDown env currentVersion actualTarget migrations w2)))"

declare upLoop.simps [simp del] downLoop.simps [simp del]

subsection \<open>Instances\<close>

text \<open>\<^verbatim>\<open>createDenoTestDatabase()\<close>: a new connection to an empty in-memory database.\<close>

definition createDenoTestDatabase :: "'d \<Rightarrow> 'd DenoDatabase" where
  "createDenoTestDatabase d0 =
    \<lparr>raw = \<lparr>live = \<lparr>ledger = None, data = d0\<rparr>, saved = None\<rparr>, inTransaction = False, issued = []\<rparr>"

text \<open>
  Migrations with inline scripts or with files, and a toy meaning of scripts on a list
  of table names: \<^verbatim>\<open>BAD\<close> fails after a partial effect, any other script adds
  its text. These scripts leave the transaction and the ledger alone.
\<close>

definition inline_migration :: "int \<Rightarrow> bool \<Rightarrow> Migration" where
  "inline_migration v r =
    \<lparr>version = v, name = ''step'', description = ''demo'', reversible = r,
     up = Inline ''CREATE'', down = Some (Inline ''DROP'')\<rparr>"

definition bad_migration :: "int \<Rightarrow> Migration" where
  "bad_migration v =
    \<lparr>version = v, name = ''step'', description = ''demo'', reversible = True,
     up = Inline ''BAD'', down = Some (Inline ''DROP'')\<rparr>"

definition file_migration :: "int \<Rightarrow> string \<Rightarrow> Migration" where
  "file_migration v file =
    \<lparr>version = v, name = ''step'', description = ''demo'', reversible = False,
     up = FileRef file, down = None\<rparr>"

definition two_file_migration :: "int \<Rightarrow> string \<Rightarrow> string \<Rightarrow> Migration" where
  "two_file_migration v up_file down_file =
    \<lparr>version = v, name = ''step'', description = ''demo'', reversible = True,
     up = FileRef up_file, down = Some (FileRef down_file)\<rparr>"

definition toy_script :: "string \<Rightarrow> string list sqlite \<Rightarrow> string option \<times> string list sqlite" where
  "toy_script sql c =
    (if sql = ''BAD''
     then (Some ''syntax error'', c\<lparr>live := (live c)\<lparr>data := data (live c) @ [''partial'']\<rparr>\<rparr>)
     else (None, c\<lparr>live := (live c)\<lparr>data := data (live c) @ [sql]\<rparr>\<rparr>))"

definition toy_parser :: "string \<Rightarrow> Migration list option" where
  "toy_parser yaml =
    (if yaml = ''one'' then Some [inline_migration 1 True]
     else if yaml = ''two'' then Some [inline_migration 1 True, inline_migration 2 True]
     else if yaml = ''fixed'' then Some [inline_migration 1 True, inline_migration 2 False]
     else if yaml = ''bad'' then Some [inline_migration 1 True, bad_migration 2]
     else if yaml = ''gap'' then Some [file_migration 2 ''missing.sql'']
     else if yaml = ''ref'' then Some [inline_migration 1 True, file_migration 2 ''missing.sql'']
     else if yaml = ''both''
     then Some [inline_migration 1 True, two_file_migration 2 ''nope_up.sql'' ''nope_down.sql'']
     else None)"

text \<open>
  An environment whose only file is the migration source; \<open>source k\<close> is its content
  at the read number \<open>k\<close>.
\<close>

definition toy_env :: "(nat \<Rightarrow> string) \<Rightarrow> string list env" where
  "toy_env source =
    \<lparr>fs = (\<lambda>k path. if path = ''migrations.yaml'' then Some (source k) else None),
     yamlParser = toy_parser,
     script = toy_script,
     commit_check = (\<lambda>s. None),
     date_now = (\<lambda>k. ''1700000000000''),
     migrationsPath = ''migrations.yaml''\<rparr>"

text \<open>The state right after \<^verbatim>\<open>new MigrationManager(db, fs, options)\<close> on a new database.\<close>

definition constructed :: "'d env \<Rightarrow> 'd \<Rightarrow> 'd world" where
  "constructed env d0 =
    \<lparr>db = snd (ensureMigrationsTable env (createDenoTestDatabase d0)), reads = []\<rparr>"

text \<open>
  A new database with a manager constructed on it, and the same database after
  \<^verbatim>\<open>migrateTo(2)\<close> with a source that holds the migrations 1 and 2.
\<close>

definition fresh_world :: "string list world" where
  "fresh_world = constructed (toy_env (\<lambda>k. ''two'')) []"

definition world_at_two :: "string list world" where
  "world_at_two = snd (migrateTo (toy_env (\<lambda>k. ''two'')) (Version 2) fresh_world)"






subsection \<open>Auxiliary notions\<close>

text \<open>The adapter right after \<^verbatim>\<open>transaction\<close> has opened a physical transaction.\<close>

definition begun :: "'d DenoDatabase \<Rightarrow> 'd DenoDatabase" where
  "begun d = d\<lparr>raw := (raw d)\<lparr>saved := Some (live (raw d))\<rparr>, inTransaction := True,
     issued := issued d @ [BEGIN_TRANSACTION]\<rparr>"


text \<open>The versions of the \<^verbatim>\<open>DELETE\<close> statements among the statements issued, in order.\<close>

fun deletions :: "stmt list \<Rightarrow> int list" where
  "deletions [] = []"
| "deletions (DELETE_FROM_migrations v # ss) = v # deletions ss"
| "deletions (_ # ss) = deletions ss"

text \<open>The versions in the ledger, in the order of its rows; \<open>None\<close> without the table.\<close>

definition versions_of :: "'d DenoDatabase \<Rightarrow> int list option" where
  "versions_of d = map_option (map row_version) (ledger (live (raw d)))"

text \<open>
  The scripts of the environment leave the transaction and the \<^verbatim>\<open>migrations\<close>
  table alone: they act on the application's tables only.
\<close>

definition tame :: "'d env \<Rightarrow> bool" where
  "tame env \<longleftrightarrow>
     (\<forall>sql c. saved (snd (script env sql c)) = saved c \<and>
        ledger (live (snd (script env sql c))) = ledger (live c))"

text \<open>The file system answers every read alike.\<close>

definition static :: "'d env \<Rightarrow> bool" where
  "static env \<longleftrightarrow> (\<forall>k. fs env k = fs env 0)"


text \<open>
  The file references that \<^verbatim>\<open>validateMigrationFiles\<close> reads, in the order in which
  it reads them: migration after migration in the order of the list, and for each
  migration \<^verbatim>\<open>up\<close> before \<^verbatim>\<open>down\<close>; a reference with an empty path is not read.
  \<open>not_found r\<close> is the error thrown when the read of \<open>r\<close> is rejected, and
  \<open>read_in_order\<close> reads the references one after the other up to the first
  rejected read.
\<close>

record file_reference =
  ref_of :: Migration
  ref_dir :: direction
  ref_file :: string

definition references_of :: "Migration \<Rightarrow> file_reference list" where
  "references_of m =
     (case up m of
        FileRef file \<Rightarrow> if file \<noteq> [] then [\<lparr>ref_of = m, ref_dir = Up, ref_file = file\<rparr>] else []
      | Inline _ \<Rightarrow> []) @
     (case down m of
        Some (FileRef file) \<Rightarrow> if file \<noteq> [] then [\<lparr>ref_of = m, ref_dir = Down, ref_file = file\<rparr>] else []
      | _ \<Rightarrow> [])"

definition file_references :: "Migration list \<Rightarrow> file_reference list" where
  "file_references ms = concat (map references_of ms)"

definition not_found :: "file_reference \<Rightarrow> error" where
  "not_found r = FileNotFound (version (ref_of r)) (name (ref_of r)) (ref_dir r) (ref_file r)"

fun read_in_order :: "'d env \<Rightarrow> file_reference list \<Rightarrow> 'd world \<Rightarrow> (error + unit) \<times> 'd world" where
  "read_in_order env [] w = (Inr (), w)"
| "read_in_order env (r # rs) w =
    (case readTextFile env (ref_file r) w of
       (None, w1) \<Rightarrow> (Inl (not_found r), w1)
     | (Some _, w1) \<Rightarrow> read_in_order env rs w1)"

section \<open>Properties\<close>

text \<open>The definitions that a run on a concrete input unfolds.\<close>

lemmas run_defs = migrateTo_def loadMigrations_def readTextFile_def resolveTarget_def
  getLatestVersion_def getCurrentVersion_def select_max_version_def migrateUp_def
  migrateDown_def migrateUpStep_def migrateDownStep_def resolveSql_def checkFileReference_def
  transaction_def exec_def sqlite_exec_def applyUnit_def rollbackUnit_def falsy_def
  constructed_def createDenoTestDatabase_def ensureMigrationsTable_def inline_migration_def
  bad_migration_def file_migration_def two_file_migration_def toy_script_def toy_parser_def toy_env_def
  fresh_world_def world_at_two_def upLoop.simps downLoop.simps Let_def


subsection \<open>The version sequence\<close>

lemma validateSequence_None_iff:
  "validateSequence i ms = None \<longleftrightarrow> map version ms = [int i + 1 .. int i + int (length ms)]"
proof (induction ms arbitrary: i)
  case Nil
  then show ?case by simp
next
  case (Cons m ms)
  have "[int i + 1 .. int i + int (length (m # ms))] =
      (int i + 1) # [int (i + 1) + 1 .. int (i + 1) + int (length ms)]"
    by (subst upto_rec1) (auto simp: add.commute add.left_commute)
  with Cons show ?case by auto
qed

lemma validateSequence_first_violation:
  "i < length ms \<Longrightarrow> \<forall>j<i. version (ms ! j) = int (k + j) + 1 \<Longrightarrow>
   version (ms ! i) \<noteq> int (k + i) + 1 \<Longrightarrow>
   validateSequence k ms = Some (SequenceError (int (k + i) + 1) (version (ms ! i)))"
proof (induction ms arbitrary: i k)
  case Nil
  then show ?case by simp
next
  case (Cons m ms)
  show ?case
  proof (cases i)
    case 0
    with Cons.prems show ?thesis by simp
  next
    case (Suc i')
    from Cons.prems Suc have first_ok: "version m = int k + 1" by force
    have "validateSequence (k + 1) ms =
        Some (SequenceError (int (k + 1 + i') + 1) (version (ms ! i')))"
    proof (rule Cons.IH)
      show "i' < length ms" using Cons.prems Suc by simp
      show "\<forall>j<i'. version (ms ! j) = int (k + 1 + j) + 1"
      proof (intro allI impI)
        fix j assume "j < i'"
        then have "Suc j < i" using Suc by simp
        with Cons.prems(2) have "version ((m # ms) ! Suc j) = int (k + Suc j) + 1" by blast
        then show "version (ms ! j) = int (k + 1 + j) + 1" by simp
      qed
      show "version (ms ! i') \<noteq> int (k + 1 + i') + 1" using Cons.prems(3) Suc by simp
    qed
    with first_ok Suc show ?thesis by simp
  qed
qed

text \<open>
  C4. The sequence check of \<^verbatim>\<open>loadMigrations\<close> succeeds exactly when the versions
  of the list are \<open>1, 2, ..., N\<close> in this order; and at the first index \<open>i\<close> whose
  version is not \<open>i + 1\<close> it fails with the sequence error that reports the expected
  version \<open>i + 1\<close> and the version found. This holds for every list, so also for the
  list sorted by version that \<^verbatim>\<open>loadMigrations\<close> passes.
\<close>

theorem validateSequence_dense:
  "(validateSequence 0 ms = None \<longleftrightarrow> map version ms = [1 .. int (length ms)]) \<and>
   (\<forall>i<length ms. (\<forall>j<i. version (ms ! j) = int j + 1) \<and> version (ms ! i) \<noteq> int i + 1 \<longrightarrow>
      validateSequence 0 ms = Some (SequenceError (int i + 1) (version (ms ! i))))"
  using validateSequence_None_iff [of 0 ms] validateSequence_first_violation [of _ ms 0]
  by simp

theorem validateSequence_dense_witness:
  "version ([inline_migration 1 True, inline_migration 3 True] ! 0) = 1 \<and>
   version ([inline_migration 1 True, inline_migration 3 True] ! 1) \<noteq> 2 \<and>
   validateSequence 0 [inline_migration 1 True, inline_migration 3 True] = Some (SequenceError 2 3)"
proof -
  let ?ms = "[inline_migration 1 True, inline_migration 3 True]"
  have a: "(1::nat) < length ?ms" by simp
  have b: "(\<forall>j<1. version (?ms ! j) = int j + 1) \<and> version (?ms ! 1) \<noteq> int 1 + 1"
    by (simp add: inline_migration_def)
  from validateSequence_dense [of ?ms, THEN conjunct2, rule_format, OF a b]
  show ?thesis by (simp add: inline_migration_def)
qed

subsection \<open>The current version\<close>

text \<open>
  C10. Constructing the manager runs \<^verbatim>\<open>ensureMigrationsTable\<close>, which succeeds,
  creates the table when it is absent and keeps its rows when it is present. Where the
  table is present \<^verbatim>\<open>getCurrentVersion\<close> returns a number and does not throw: 0 on
  an empty ledger, the maximum recorded version otherwise. (It throws only where the
  table is absent.)
\<close>

theorem getCurrentVersion_total:
  "fst (ensureMigrationsTable env d) = Inr () \<and>
   ledger (live (raw (snd (ensureMigrationsTable env d)))) =
     Some (case ledger (live (raw d)) of None \<Rightarrow> [] | Some rows \<Rightarrow> rows) \<and>
   getCurrentVersion (snd (ensureMigrationsTable env d)) =
     Inr (case ledger (live (raw d)) of
            None \<Rightarrow> 0
          | Some rows \<Rightarrow> if rows = [] then 0 else Max (set (map row_version rows))) \<and>
   getCurrentVersion d' =
     (case ledger (live (raw d')) of
        None \<Rightarrow> Inl (SqliteError ''no such table: migrations'')
      | Some rows \<Rightarrow> Inr (if rows = [] then 0 else Max (set (map row_version rows))))"
  by (simp add: ensureMigrationsTable_def exec_def sqlite_exec_def getCurrentVersion_def
      select_max_version_def split: option.splits)

subsection \<open>The transaction flag of DenoDatabase\<close>

lemma transaction_nested: "inTransaction d \<Longrightarrow> transaction env fn d = fn d"
  by (simp add: transaction_def)

text \<open>
  C9. A call of \<^verbatim>\<open>transaction\<close> made while the flag is up runs its function and
  nothing else (\<open>transaction_nested\<close>). But the flag does not come down after every
  outermost call: it is raised before \<^verbatim>\<open>BEGIN TRANSACTION\<close> is sent, outside the
  \<^verbatim>\<open>try\<close>. On a connection where a physical transaction is already open (here:
  opened through \<^verbatim>\<open>exec\<close>) the driver rejects \<^verbatim>\<open>BEGIN TRANSACTION\<close>, the call
  throws, and the flag stays up; every later call then runs its function directly, with
  no \<^verbatim>\<open>BEGIN\<close>, \<^verbatim>\<open>COMMIT\<close> or \<^verbatim>\<open>ROLLBACK\<close>.
\<close>

theorem transaction_flag_stays_up:
  "fst (transaction env fn (snd (exec env BEGIN_TRANSACTION (createDenoTestDatabase d0)))) =
     Inl (SqliteError ''cannot start a transaction within a transaction'') \<and>
   inTransaction (snd (transaction env fn (snd (exec env BEGIN_TRANSACTION (createDenoTestDatabase d0))))) \<and>
   transaction env later
     (snd (transaction env fn (snd (exec env BEGIN_TRANSACTION (createDenoTestDatabase d0))))) =
   later (snd (transaction env fn (snd (exec env BEGIN_TRANSACTION (createDenoTestDatabase d0)))))"
  by (simp add: transaction_def exec_def sqlite_exec_def createDenoTestDatabase_def)

text \<open>
  The flag stays up as well when \<^verbatim>\<open>ROLLBACK\<close> is rejected in the \<^verbatim>\<open>catch\<close>
  block, as after a function that has itself ended the transaction.
\<close>

lemma transaction_rollback_rejected_keeps_flag:
  "fst (transaction env (exec env ROLLBACK) (createDenoTestDatabase d0)) =
     Inl (SqliteError ''cannot rollback - no transaction is active'') \<and>
   inTransaction (snd (transaction env (exec env ROLLBACK) (createDenoTestDatabase d0)))"
  by (simp add: transaction_def exec_def sqlite_exec_def createDenoTestDatabase_def)

subsection \<open>Atomic units on a connection at rest\<close>

lemma exec_flag [simp]: "inTransaction (snd (exec env s d)) = inTransaction d"
  by (simp add: exec_def split: prod.splits option.splits)

lemma exec_issued [simp]: "issued (snd (exec env s d)) = issued d @ [s]"
  by (simp add: exec_def split: prod.splits option.splits)

lemma exec_saved:
  "tame env \<Longrightarrow> s \<noteq> BEGIN_TRANSACTION \<Longrightarrow> s \<noteq> COMMIT \<Longrightarrow> s \<noteq> ROLLBACK \<Longrightarrow>
     saved (raw (snd (exec env s d))) = saved (raw d)"
proof (cases s)
  case (Script sql)
  assume "tame env"
  then have "saved (snd (script env sql (raw d))) = saved (raw d)" by (simp add: tame_def)
  with Script show ?thesis
    by (cases "script env sql (raw d)") (auto simp: exec_def sqlite_exec_def split: option.splits)
qed (auto simp: exec_def sqlite_exec_def split: prod.splits option.splits)

lemma exec_statement_saved:
  "saved (raw (snd (exec env (INSERT_INTO_migrations v n de a) d))) = saved (raw d)"
  "saved (raw (snd (exec env (DELETE_FROM_migrations v) d))) = saved (raw d)"
  by (auto simp: exec_def sqlite_exec_def split: prod.splits option.splits)

lemma exec_BEGIN_idle:
  "idle d \<Longrightarrow> exec env BEGIN_TRANSACTION (d\<lparr>inTransaction := True\<rparr>) = (Inr (), begun d)"
  by (simp add: idle_def exec_def sqlite_exec_def begun_def)

lemma exec_COMMIT_open:
  "saved (raw d) = Some s0 \<Longrightarrow> commit_check env (live (raw d)) = None \<Longrightarrow>
     exec env COMMIT d = (Inr (), d\<lparr>raw := (raw d)\<lparr>saved := None\<rparr>, issued := issued d @ [COMMIT]\<rparr>)"
  by (simp add: exec_def sqlite_exec_def)

lemma exec_COMMIT_rejected:
  "saved (raw d) = Some s0 \<Longrightarrow> commit_check env (live (raw d)) = Some msg \<Longrightarrow>
     exec env COMMIT d = (Inl (SqliteError msg), d\<lparr>issued := issued d @ [COMMIT]\<rparr>)"
  by (simp add: exec_def sqlite_exec_def)

lemma exec_ROLLBACK_open:
  "saved (raw d) = Some s0 \<Longrightarrow>
     exec env ROLLBACK d =
       (Inr (), d\<lparr>raw := (raw d)\<lparr>live := s0, saved := None\<rparr>, issued := issued d @ [ROLLBACK]\<rparr>)"
  by (simp add: exec_def sqlite_exec_def)

lemma transaction_idle_Inr:
  assumes "idle d" and "fn (begun d) = (Inr r, d2)" and "saved (raw d2) = Some s0"
    and "commit_check env (live (raw d2)) = None"
  shows "transaction env fn d =
    (Inr r, d2\<lparr>raw := (raw d2)\<lparr>saved := None\<rparr>, issued := issued d2 @ [COMMIT],
              inTransaction := False\<rparr>)"
proof -
  from assms(1) have "\<not> inTransaction d" by (simp add: idle_def)
  then show ?thesis
    by (simp add: transaction_def exec_BEGIN_idle [OF assms(1)] assms(2)
        exec_COMMIT_open [OF assms(3,4)])
qed

lemma transaction_idle_rejected:
  assumes "idle d" and "fn (begun d) = (Inr r, d2)" and "saved (raw d2) = Some s0"
    and "commit_check env (live (raw d2)) = Some msg"
  shows "transaction env fn d =
    (Inl (SqliteError msg),
     d2\<lparr>raw := (raw d2)\<lparr>live := s0, saved := None\<rparr>, issued := issued d2 @ [COMMIT, ROLLBACK],
        inTransaction := False\<rparr>)"
proof -
  let ?d3 = "d2\<lparr>issued := issued d2 @ [COMMIT]\<rparr>"
  have c: "exec env COMMIT d2 = (Inl (SqliteError msg), ?d3)"
    using assms(3,4) by (rule exec_COMMIT_rejected)
  have "saved (raw ?d3) = Some s0" using assms(3) by simp
  then have rb: "exec env ROLLBACK ?d3 =
      (Inr (), ?d3\<lparr>raw := (raw ?d3)\<lparr>live := s0, saved := None\<rparr>, issued := issued ?d3 @ [ROLLBACK]\<rparr>)"
    by (rule exec_ROLLBACK_open)
  from assms(1) have "\<not> inTransaction d" by (simp add: idle_def)
  then show ?thesis
    by (simp add: transaction_def exec_BEGIN_idle [OF assms(1)] assms(2) c rb)
qed

lemma transaction_idle_Inl:
  assumes "idle d" and "fn (begun d) = (Inl e, d2)" and "saved (raw d2) = Some s0"
  shows "transaction env fn d =
    (Inl e, d2\<lparr>raw := (raw d2)\<lparr>live := s0, saved := None\<rparr>,
              issued := issued d2 @ [ROLLBACK], inTransaction := False\<rparr>)"
proof -
  from assms(1) have "\<not> inTransaction d" by (simp add: idle_def)
  then show ?thesis
    by (simp add: transaction_def exec_BEGIN_idle [OF assms(1)] assms(2)
        exec_ROLLBACK_open [OF assms(3)])
qed

subsection \<open>Loading the migration source\<close>


lemma readTextFile_db [simp]: "db (snd (readTextFile env p w)) = db w"
  by (simp add: readTextFile_def)

lemma checkFileReference_db [simp]: "db (snd (checkFileReference env m dir sql w)) = db w"
  by (auto simp: checkFileReference_def readTextFile_def split: option.splits sql_source.splits)

lemma validateMigrationFiles_db [simp]: "db (snd (validateMigrationFiles env ms w)) = db w"
proof (induction ms arbitrary: w)
  case Nil
  show ?case by simp
next
  case (Cons m ms)
  obtain r1 w1 where c1: "checkFileReference env m Up (Some (up m)) w = (r1, w1)"
    by (cases "checkFileReference env m Up (Some (up m)) w")
  obtain r2 w2 where c2: "checkFileReference env m Down (down m) w1 = (r2, w2)"
    by (cases "checkFileReference env m Down (down m) w1")
  have d1: "db w1 = db w" using checkFileReference_db [of env m Up "Some (up m)" w] c1 by simp
  have d2: "db w2 = db w" using checkFileReference_db [of env m Down "down m" w1] c2 d1 by simp
  show ?case
  proof (cases r1)
    case (Inl e)
    with c1 d1 show ?thesis by simp
  next
    case (Inr u)
    note r1 = this
    show ?thesis
    proof (cases r2)
      case (Inl e)
      with c1 c2 r1 d2 show ?thesis by simp
    next
      case (Inr u2)
      with c1 c2 r1 d2 Cons [of w2] show ?thesis by simp
    qed
  qed
qed

lemma loadMigrations_db [simp]: "db (snd (loadMigrations env w)) = db w"
proof -
  obtain c w1 where r: "readTextFile env (migrationsPath env) w = (c, w1)"
    by (cases "readTextFile env (migrationsPath env) w")
  then have d1: "db w1 = db w" using readTextFile_db [of env "migrationsPath env" w] by simp
  show ?thesis
  proof (cases c)
    case None
    with r d1 show ?thesis by (simp add: loadMigrations_def)
  next
    case (Some yaml)
    show ?thesis
    proof (cases "yamlParser env yaml")
      case None
      with r d1 Some show ?thesis by (simp add: loadMigrations_def)
    next
      case (Some raw)
      note parsed = this
      let ?ms = "sort_key version raw"
      show ?thesis
      proof (cases "validateSequence 0 ?ms")
        case (Some e)
        with r d1 \<open>c = Some yaml\<close> parsed show ?thesis by (simp add: loadMigrations_def)
      next
        case None
        obtain r2 w2 where v: "validateMigrationFiles env ?ms w1 = (r2, w2)"
          by (cases "validateMigrationFiles env ?ms w1")
        then have "db w2 = db w" using validateMigrationFiles_db [of env ?ms w1] d1 by simp
        with r \<open>c = Some yaml\<close> parsed None v show ?thesis
          by (cases r2) (simp_all add: loadMigrations_def)
      qed
    qed
  qed
qed




lemma checkFileReference_reads:
  "\<exists>rest. reads (snd (checkFileReference env m dir sql w)) = reads w @ rest"
  by (auto simp: checkFileReference_def readTextFile_def split: option.splits sql_source.splits)

lemma validateMigrationFiles_reads:
  "\<exists>rest. reads (snd (validateMigrationFiles env ms w)) = reads w @ rest"
proof (induction ms arbitrary: w)
  case Nil
  show ?case by simp
next
  case (Cons m ms)
  obtain r1 w1 where c1: "checkFileReference env m Up (Some (up m)) w = (r1, w1)"
    by (cases "checkFileReference env m Up (Some (up m)) w")
  obtain r2 w2 where c2: "checkFileReference env m Down (down m) w1 = (r2, w2)"
    by (cases "checkFileReference env m Down (down m) w1")
  from checkFileReference_reads [of env m Up "Some (up m)" w] c1
  obtain a where d1: "reads w1 = reads w @ a" by auto
  from checkFileReference_reads [of env m Down "down m" w1] c2 d1
  obtain b where d2: "reads w2 = reads w @ b" by auto
  from Cons [of w2] d2 obtain c where d3: "reads (snd (validateMigrationFiles env ms w2)) = reads w @ c"
    by auto
  show ?case
  proof (cases r1)
    case (Inl e)
    with c1 d1 show ?thesis by simp
  next
    case (Inr u)
    note r1 = this
    show ?thesis
    proof (cases r2)
      case (Inl e)
      with c1 c2 r1 d2 show ?thesis by simp
    next
      case (Inr u2)
      with c1 c2 r1 d3 show ?thesis by simp
    qed
  qed
qed

lemma loadMigrations_reads:
  "\<exists>rest. reads (snd (loadMigrations env w)) = reads w @ migrationsPath env # rest"
proof -
  let ?w1 = "w\<lparr>reads := reads w @ [migrationsPath env]\<rparr>"
  have v: "\<And>ms. \<exists>rest. reads (snd (validateMigrationFiles env ms ?w1)) = reads w @ migrationsPath env # rest"
    using validateMigrationFiles_reads [of env _ ?w1] by simp
  show ?thesis
  proof (cases "fs env (length (reads w)) (migrationsPath env)")
    case None
    then show ?thesis by (simp add: loadMigrations_def readTextFile_def)
  next
    case (Some yaml)
    note c = this
    show ?thesis
    proof (cases "yamlParser env yaml")
      case None
      with c show ?thesis by (simp add: loadMigrations_def readTextFile_def)
    next
      case (Some parsed)
      note p = this
      show ?thesis
      proof (cases "validateSequence 0 (sort_key version parsed)")
        case (Some e)
        with c p show ?thesis by (simp add: loadMigrations_def readTextFile_def)
      next
        case None
        obtain r2 w2 where vv: "validateMigrationFiles env (sort_key version parsed) ?w1 = (r2, w2)"
          by (cases "validateMigrationFiles env (sort_key version parsed) ?w1")
        with v [of "sort_key version parsed"] obtain rest where
          "reads w2 = reads w @ migrationsPath env # rest" by auto
        with c p None vv show ?thesis
          by (cases r2) (simp_all add: loadMigrations_def readTextFile_def)
      qed
    qed
  qed
qed

lemma checkFileReference_static:
  "static env \<Longrightarrow> fst (checkFileReference env m dir sql w) = fst (checkFileReference env m dir sql w')"
proof -
  assume "static env"
  then have "\<And>k j. fs env k = fs env j" by (metis static_def)
  then have "\<And>f. fs env (length (reads w)) f = fs env (length (reads w')) f" by metis
  then show ?thesis
    by (auto simp: checkFileReference_def readTextFile_def split: option.splits sql_source.splits)
qed

lemma validateMigrationFiles_static:
  "static env \<Longrightarrow> fst (validateMigrationFiles env ms w) = fst (validateMigrationFiles env ms w')"
proof (induction ms arbitrary: w w')
  case Nil
  show ?case by simp
next
  case (Cons m ms)
  obtain r1 w1 where c1: "checkFileReference env m Up (Some (up m)) w = (r1, w1)"
    by (cases "checkFileReference env m Up (Some (up m)) w")
  obtain r1' w1' where c1': "checkFileReference env m Up (Some (up m)) w' = (r1', w1')"
    by (cases "checkFileReference env m Up (Some (up m)) w'")
  obtain r2 w2 where c2: "checkFileReference env m Down (down m) w1 = (r2, w2)"
    by (cases "checkFileReference env m Down (down m) w1")
  obtain r2' w2' where c2': "checkFileReference env m Down (down m) w1' = (r2', w2')"
    by (cases "checkFileReference env m Down (down m) w1'")
  from checkFileReference_static [OF Cons.prems, of m Up "Some (up m)" w w'] c1 c1'
  have e1: "r1' = r1" by simp
  from checkFileReference_static [OF Cons.prems, of m Down "down m" w1 w1'] c2 c2'
  have e2: "r2' = r2" by simp
  show ?case
  proof (cases r1)
    case (Inl e)
    with c1 c1' e1 show ?thesis by simp
  next
    case (Inr u)
    note r1 = this
    show ?thesis
    proof (cases r2)
      case (Inl e)
      with c1 c1' c2 c2' e1 e2 r1 show ?thesis by simp
    next
      case (Inr u2)
      with c1 c1' c2 c2' e1 e2 r1 Cons.IH [OF Cons.prems, of w2 w2'] show ?thesis by simp
    qed
  qed
qed

lemma loadMigrations_static:
  assumes "static env"
  shows "fst (loadMigrations env w) = fst (loadMigrations env w')"
proof -
  from assms have "\<And>k j. fs env k = fs env j" by (metis static_def)
  then have same: "fs env (length (reads w)) (migrationsPath env) = fs env (length (reads w')) (migrationsPath env)"
    by metis
  let ?w1 = "w\<lparr>reads := reads w @ [migrationsPath env]\<rparr>"
  let ?w1' = "w'\<lparr>reads := reads w' @ [migrationsPath env]\<rparr>"
  show ?thesis
  proof (cases "fs env (length (reads w)) (migrationsPath env)")
    case None
    with same show ?thesis by (simp add: loadMigrations_def readTextFile_def)
  next
    case (Some yaml)
    note c = this
    show ?thesis
    proof (cases "yamlParser env yaml")
      case None
      with c same show ?thesis by (simp add: loadMigrations_def readTextFile_def)
    next
      case (Some parsed)
      note p = this
      show ?thesis
      proof (cases "validateSequence 0 (sort_key version parsed)")
        case (Some e)
        with c p same show ?thesis by (simp add: loadMigrations_def readTextFile_def)
      next
        case None
        obtain r2 w2 where vv: "validateMigrationFiles env (sort_key version parsed) ?w1 = (r2, w2)"
          by (cases "validateMigrationFiles env (sort_key version parsed) ?w1")
        obtain r2' w2' where vv': "validateMigrationFiles env (sort_key version parsed) ?w1' = (r2', w2')"
          by (cases "validateMigrationFiles env (sort_key version parsed) ?w1'")
        from validateMigrationFiles_static [OF assms, of "sort_key version parsed" ?w1 ?w1'] vv vv'
        have "r2' = r2" by simp
        with c p None vv vv' same show ?thesis
          by (cases r2) (simp_all add: loadMigrations_def readTextFile_def)
      qed
    qed
  qed
qed



lemma migrateTo_Version:
  assumes "loadMigrations env w = (Inr ms, w1)" and "getCurrentVersion (db w1) = Inr cur"
  shows "migrateTo env (Version n) w =
           (if cur = n then (Inr (), w1)
            else if cur < n then migrateUp env cur n ms w1 else migrateDown env cur n ms w1)"
  using assms by (simp add: migrateTo_def resolveTarget_def)

lemma migrateTo_Latest:
  assumes "loadMigrations env w = (Inr ms, w1)" and "getCurrentVersion (db w1) = Inr cur"
    and "loadMigrations env w1 = (Inr ms', w2)"
  shows "migrateTo env Latest w =
           (let t = (if ms' = [] then 0 else Max (set (map version ms'))) in
            if cur = t then (Inr (), w2)
            else if cur < t then migrateUp env cur t ms w2 else migrateDown env cur t ms w2)"
  using assms by (simp add: migrateTo_def resolveTarget_def getLatestVersion_def Let_def)

text \<open>
  C2, as the code has it. With a numeric target \<^verbatim>\<open>migrateTo\<close> loads the migration
  source once and steps through that set. With the target \<^verbatim>\<open>"latest"\<close> it loads
  the source twice, first for the set whose migrations the steps look up and then again
  inside \<^verbatim>\<open>getLatestVersion\<close>: the target is the maximum version of the set of
  the second load, or 0 if that set is empty, and the path of the source stands twice
  among the reads. Where the file system answers every read alike, the two sets are the
  same list.
\<close>

theorem migrateTo_loads_source:
  assumes "loadMigrations env w = (Inr ms, w1)" and "getCurrentVersion (db w1) = Inr cur"
  shows "migrateTo env (Version n) w =
           (if cur = n then (Inr (), w1)
            else if cur < n then migrateUp env cur n ms w1 else migrateDown env cur n ms w1) \<and>
         (\<forall>ms' w2. loadMigrations env w1 = (Inr ms', w2) \<longrightarrow>
            migrateTo env Latest w =
              (let t = (if ms' = [] then 0 else Max (set (map version ms'))) in
               if cur = t then (Inr (), w2)
               else if cur < t then migrateUp env cur t ms w2 else migrateDown env cur t ms w2) \<and>
            (\<exists>r1 r2. reads w2 = reads w @ migrationsPath env # r1 @ migrationsPath env # r2) \<and>
            (static env \<longrightarrow> ms' = ms))"
proof (intro conjI allI impI)
  show "migrateTo env (Version n) w =
           (if cur = n then (Inr (), w1)
            else if cur < n then migrateUp env cur n ms w1 else migrateDown env cur n ms w1)"
    using assms by (rule migrateTo_Version)
next
  fix ms' w2
  assume second: "loadMigrations env w1 = (Inr ms', w2)"
  show "migrateTo env Latest w =
           (let t = (if ms' = [] then 0 else Max (set (map version ms'))) in
            if cur = t then (Inr (), w2)
            else if cur < t then migrateUp env cur t ms w2 else migrateDown env cur t ms w2)"
    using assms second by (rule migrateTo_Latest)
  from loadMigrations_reads [of env w] assms(1)
  obtain r1 where a: "reads w1 = reads w @ migrationsPath env # r1" by auto
  from loadMigrations_reads [of env w1] second
  obtain r2 where b: "reads w2 = reads w1 @ migrationsPath env # r2" by auto
  from a b show "\<exists>r1 r2. reads w2 = reads w @ migrationsPath env # r1 @ migrationsPath env # r2"
    by (intro exI [of _ r1] exI [of _ r2]) simp
  assume "static env"
  from loadMigrations_static [OF this, of w w1] assms(1) second show "ms' = ms" by simp
qed

theorem migrateTo_loads_source_witness:
  "loadMigrations (toy_env (\<lambda>k. ''two'')) (constructed (toy_env (\<lambda>k. ''two'')) []) =
     (Inr [inline_migration 1 True, inline_migration 2 True],
      (constructed (toy_env (\<lambda>k. ''two'')) [])\<lparr>reads := [''migrations.yaml'']\<rparr>) \<and>
   getCurrentVersion (db ((constructed (toy_env (\<lambda>k. ''two'')) [])\<lparr>reads := [''migrations.yaml'']\<rparr>)) = Inr 0 \<and>
   loadMigrations (toy_env (\<lambda>k. ''two''))
       ((constructed (toy_env (\<lambda>k. ''two'')) [])\<lparr>reads := [''migrations.yaml'']\<rparr>) =
     (Inr [inline_migration 1 True, inline_migration 2 True],
      (constructed (toy_env (\<lambda>k. ''two'')) [])\<lparr>reads := [''migrations.yaml'', ''migrations.yaml'']\<rparr>) \<and>
   static (toy_env (\<lambda>k. ''two'')) \<and>
   migrateTo (toy_env (\<lambda>k. ''two'')) Latest (constructed (toy_env (\<lambda>k. ''two'')) []) =
     migrateUp (toy_env (\<lambda>k. ''two'')) 0 2 [inline_migration 1 True, inline_migration 2 True]
       ((constructed (toy_env (\<lambda>k. ''two'')) [])\<lparr>reads := [''migrations.yaml'', ''migrations.yaml'']\<rparr>)"
proof -
  let ?env = "toy_env (\<lambda>k. ''two'')"
  let ?ms = "[inline_migration 1 True, inline_migration 2 True]"
  let ?w = "constructed ?env []"
  let ?w1 = "?w\<lparr>reads := [''migrations.yaml'']\<rparr>"
  let ?w2 = "?w\<lparr>reads := [''migrations.yaml'', ''migrations.yaml'']\<rparr>"
  have a: "loadMigrations ?env ?w = (Inr ?ms, ?w1)"
    by (simp add: run_defs)
  have b: "getCurrentVersion (db ?w1) = Inr 0"
    by (simp add: run_defs)
  have c: "loadMigrations ?env ?w1 = (Inr ?ms, ?w2)"
    by (simp add: run_defs)
  have d: "static ?env"
    by (simp add: static_def toy_env_def)
  from migrateTo_loads_source [OF a b, of 0, THEN conjunct2, rule_format, OF c, THEN conjunct1]
  have "migrateTo ?env Latest ?w = migrateUp ?env 0 2 ?ms ?w2"
    by (simp add: inline_migration_def)
  with a b c d show ?thesis by blast
qed

text \<open>
  The content of the source changes between the two loads: the first load gives the
  migration 1, the second the migrations 1 and 2. The target is 2, the maximum of a set
  that is not the one searched; migration 1 is applied and the step to version 2 finds no
  migration.
\<close>

theorem migrateTo_latest_reads_twice:
  "fst (migrateTo (toy_env (\<lambda>k. if k = 0 then ''one'' else ''two'')) Latest
          (constructed (toy_env (\<lambda>k. if k = 0 then ''one'' else ''two'')) [])) =
     Inl (VersionNotFound 2) \<and>
   reads (snd (migrateTo (toy_env (\<lambda>k. if k = 0 then ''one'' else ''two'')) Latest
          (constructed (toy_env (\<lambda>k. if k = 0 then ''one'' else ''two'')) []))) =
     [''migrations.yaml'', ''migrations.yaml''] \<and>
   applied_versions (db (snd (migrateTo (toy_env (\<lambda>k. if k = 0 then ''one'' else ''two'')) Latest
          (constructed (toy_env (\<lambda>k. if k = 0 then ''one'' else ''two'')) [])))) = [1]"
  by (simp add: run_defs applied_versions_def)

subsection \<open>Missing SQL files\<close>

lemma read_in_order_append:
  "read_in_order env (rs @ rs') w =
    (case read_in_order env rs w of
       (Inl e, w1) \<Rightarrow> (Inl e, w1)
     | (Inr _, w1) \<Rightarrow> read_in_order env rs' w1)"
  by (induction rs arbitrary: w) (auto split: prod.splits option.splits sum.splits)

lemma checkFileReference_up:
  "checkFileReference env m Up (Some (up m)) w =
     read_in_order env
       (case up m of
          FileRef file \<Rightarrow> if file \<noteq> [] then [\<lparr>ref_of = m, ref_dir = Up, ref_file = file\<rparr>] else []
        | Inline _ \<Rightarrow> []) w"
  by (auto simp: checkFileReference_def not_found_def split: sql_source.splits option.splits prod.splits)

lemma checkFileReference_down:
  "checkFileReference env m Down (down m) w =
     read_in_order env
       (case down m of
          Some (FileRef file) \<Rightarrow> if file \<noteq> [] then [\<lparr>ref_of = m, ref_dir = Down, ref_file = file\<rparr>] else []
        | _ \<Rightarrow> []) w"
  by (auto simp: checkFileReference_def not_found_def split: sql_source.splits option.splits prod.splits)

lemma validateMigrationFiles_in_order:
  "validateMigrationFiles env ms w = read_in_order env (file_references ms) w"
proof (induction ms arbitrary: w)
  case Nil
  show ?case by (simp add: file_references_def)
next
  case (Cons m ms)
  have "file_references (m # ms) = references_of m @ file_references ms"
    by (simp add: file_references_def)
  then show ?case
    unfolding references_of_def
    by (simp add: read_in_order_append checkFileReference_up checkFileReference_down Cons
        del: read_in_order.simps split: prod.splits sum.splits)
qed

lemma read_in_order_first:
  "i < length rs \<Longrightarrow>
   \<forall>j<i. fs env (length (reads w) + j) (ref_file (rs ! j)) \<noteq> None \<Longrightarrow>
   fs env (length (reads w) + i) (ref_file (rs ! i)) = None \<Longrightarrow>
   read_in_order env rs w =
     (Inl (not_found (rs ! i)), w\<lparr>reads := reads w @ map ref_file (take (Suc i) rs)\<rparr>)"
proof (induction rs arbitrary: i w)
  case Nil
  then show ?case by simp
next
  case (Cons r rs)
  show ?case
  proof (cases i)
    case 0
    with Cons.prems show ?thesis by (simp add: readTextFile_def)
  next
    case (Suc i')
    from Cons.prems(2) Suc have "fs env (length (reads w) + 0) (ref_file ((r # rs) ! 0)) \<noteq> None"
      by blast
    then obtain content where c: "fs env (length (reads w)) (ref_file r) = Some content" by auto
    let ?w1 = "w\<lparr>reads := reads w @ [ref_file r]\<rparr>"
    have "read_in_order env rs ?w1 =
        (Inl (not_found (rs ! i')), ?w1\<lparr>reads := reads ?w1 @ map ref_file (take (Suc i') rs)\<rparr>)"
    proof (rule Cons.IH)
      show "i' < length rs" using Cons.prems(1) Suc by simp
      show "\<forall>j<i'. fs env (length (reads ?w1) + j) (ref_file (rs ! j)) \<noteq> None"
      proof (intro allI impI)
        fix j assume "j < i'"
        then have "Suc j < i" using Suc by simp
        with Cons.prems(2) have "fs env (length (reads w) + Suc j) (ref_file ((r # rs) ! Suc j)) \<noteq> None"
          by blast
        then show "fs env (length (reads ?w1) + j) (ref_file (rs ! j)) \<noteq> None" by simp
      qed
      show "fs env (length (reads ?w1) + i') (ref_file (rs ! i')) = None"
        using Cons.prems(3) Suc by simp
    qed
    with c Suc show ?thesis by (simp add: readTextFile_def)
  qed
qed

lemma first_rejected:
  assumes "r \<in> set rs" and "\<forall>k. fs env k (ref_file r) = None"
  shows "\<exists>i<length rs. (\<forall>j<i. fs env (n + j) (ref_file (rs ! j)) \<noteq> None) \<and>
           fs env (n + i) (ref_file (rs ! i)) = None"
proof -
  let ?P = "\<lambda>i. i < length rs \<and> fs env (n + i) (ref_file (rs ! i)) = None"
  from assms obtain i0 where "?P i0" by (auto simp: in_set_conv_nth)
  then have l: "?P (LEAST i. ?P i)" by (rule LeastI)
  have "\<forall>j<(LEAST i. ?P i). fs env (n + j) (ref_file (rs ! j)) \<noteq> None"
  proof (intro allI impI)
    fix j assume j: "j < (LEAST i. ?P i)"
    then have "\<not> ?P j" by (rule not_less_Least)
    moreover from j l have "j < length rs" by simp
    ultimately show "fs env (n + j) (ref_file (rs ! j)) \<noteq> None" by simp
  qed
  with l show ?thesis by blast
qed

lemma references_of_member:
  "f \<noteq> [] \<Longrightarrow> up m = FileRef f \<or> down m = Some (FileRef f) \<Longrightarrow>
     \<exists>r \<in> set (references_of m). ref_file r = f"
  by (auto simp: references_of_def split: sql_source.splits option.splits)

text \<open>
  C7, as the code has it. The sequence check comes first. For a source that parses to a
  set whose sorted versions are \<open>1, ..., N\<close> and that holds a migration whose
  \<^verbatim>\<open>up\<close> or \<^verbatim>\<open>down\<close> is a file reference with a non-empty path that no read
  resolves, \<^verbatim>\<open>migrateTo\<close> fails while loading. The error is "Failed to load
  migrations" around the "file not found" message of the first file reference whose
  read is rejected, in the order of the sorted set and with \<^verbatim>\<open>up\<close> before
  \<^verbatim>\<open>down\<close>: every reference before it was read, and the message names its
  migration, its direction and its file. The final state is the initial one with the
  reads added, the source and the references up to that one: the database adapter is
  untouched, no statement was issued and no unit opened.
\<close>

theorem migrateTo_missing_file:
  assumes "fs env (length (reads w)) (migrationsPath env) = Some yaml"
    and "yamlParser env yaml = Some parsed"
    and "map version (sort_key version parsed) = [1 .. int (length parsed)]"
    and "m \<in> set parsed" and "up m = FileRef f \<or> down m = Some (FileRef f)"
    and "f \<noteq> []" and "\<forall>k. fs env k f = None"
  shows "\<exists>i<length (file_references (sort_key version parsed)).
           (\<forall>j<i. fs env (Suc (length (reads w)) + j)
                     (ref_file (file_references (sort_key version parsed) ! j)) \<noteq> None) \<and>
           fs env (Suc (length (reads w)) + i)
             (ref_file (file_references (sort_key version parsed) ! i)) = None \<and>
           migrateTo env tgt w =
             (Inl (LoadFailed (not_found (file_references (sort_key version parsed) ! i))),
              w\<lparr>reads := reads w @ migrationsPath env #
                    map ref_file (take (Suc i) (file_references (sort_key version parsed)))\<rparr>)"
proof -
  let ?ms = "sort_key version parsed"
  let ?rs = "file_references ?ms"
  let ?w1 = "w\<lparr>reads := reads w @ [migrationsPath env]\<rparr>"
  have seq: "validateSequence 0 ?ms = None"
    using assms(3) validateSequence_None_iff [of 0 ?ms] by simp
  have "m \<in> set ?ms" using assms(4) by simp
  with references_of_member [OF assms(6,5)] obtain r where r: "r \<in> set ?rs" "ref_file r = f"
    by (auto simp: file_references_def)
  with assms(7) have "\<forall>k. fs env k (ref_file r) = None" by simp
  from first_rejected [OF r(1) this, of "Suc (length (reads w))"]
  obtain i where i: "i < length ?rs"
    "\<forall>j<i. fs env (Suc (length (reads w)) + j) (ref_file (?rs ! j)) \<noteq> None"
    "fs env (Suc (length (reads w)) + i) (ref_file (?rs ! i)) = None" by blast
  have "read_in_order env ?rs ?w1 =
      (Inl (not_found (?rs ! i)), ?w1\<lparr>reads := reads ?w1 @ map ref_file (take (Suc i) ?rs)\<rparr>)"
    using i by (intro read_in_order_first) simp_all
  then have v: "validateMigrationFiles env ?ms ?w1 =
      (Inl (not_found (?rs ! i)),
       w\<lparr>reads := reads w @ migrationsPath env # map ref_file (take (Suc i) ?rs)\<rparr>)"
    by (simp add: validateMigrationFiles_in_order)
  have "loadMigrations env w =
      (Inl (LoadFailed (not_found (?rs ! i))),
       w\<lparr>reads := reads w @ migrationsPath env # map ref_file (take (Suc i) ?rs)\<rparr>)"
    using assms(1,2) seq v by (simp add: loadMigrations_def readTextFile_def Let_def)
  then have "migrateTo env tgt w =
      (Inl (LoadFailed (not_found (?rs ! i))),
       w\<lparr>reads := reads w @ migrationsPath env # map ref_file (take (Suc i) ?rs)\<rparr>)"
    by (simp add: migrateTo_def)
  with i show ?thesis by blast
qed

theorem migrateTo_missing_file_witness:
  "fs (toy_env (\<lambda>k. ''both'')) (length (reads fresh_world)) (migrationsPath (toy_env (\<lambda>k. ''both''))) =
     Some ''both'' \<and>
   yamlParser (toy_env (\<lambda>k. ''both'')) ''both'' =
     Some [inline_migration 1 True, two_file_migration 2 ''nope_up.sql'' ''nope_down.sql''] \<and>
   map version
     (sort_key version [inline_migration 1 True, two_file_migration 2 ''nope_up.sql'' ''nope_down.sql'']) =
     [1, 2] \<and>
   down (two_file_migration 2 ''nope_up.sql'' ''nope_down.sql'') = Some (FileRef ''nope_down.sql'') \<and>
   fs (toy_env (\<lambda>k. ''both'')) 2 ''nope_down.sql'' = None \<and>
   map ref_file (file_references
     (sort_key version [inline_migration 1 True, two_file_migration 2 ''nope_up.sql'' ''nope_down.sql''])) =
     [''nope_up.sql'', ''nope_down.sql''] \<and>
   migrateTo (toy_env (\<lambda>k. ''both'')) Latest fresh_world =
     (Inl (LoadFailed (FileNotFound 2 ''step'' Up ''nope_up.sql'')),
      fresh_world\<lparr>reads := [''migrations.yaml'', ''nope_up.sql'']\<rparr>)"
proof -
  let ?env = "toy_env (\<lambda>k. ''both'')"
  let ?m = "two_file_migration 2 ''nope_up.sql'' ''nope_down.sql''"
  let ?parsed = "[inline_migration 1 True, ?m]"
  let ?rs = "file_references (sort_key version ?parsed)"
  have a: "fs ?env (length (reads fresh_world)) (migrationsPath ?env) = Some ''both''"
    by (simp add: toy_env_def)
  have b: "yamlParser ?env ''both'' = Some ?parsed"
    by (simp add: toy_env_def toy_parser_def)
  have c: "map version (sort_key version ?parsed) = [1 .. int (length ?parsed)]"
    by (simp add: inline_migration_def two_file_migration_def upto_rec1)
  have c': "map version (sort_key version ?parsed) = [1, 2]"
    by (simp add: inline_migration_def two_file_migration_def)
  have d: "?m \<in> set ?parsed" by simp
  have e: "down ?m = Some (FileRef ''nope_down.sql'')" by (simp add: two_file_migration_def)
  then have e': "up ?m = FileRef ''nope_down.sql'' \<or> down ?m = Some (FileRef ''nope_down.sql'')" ..
  have f: "''nope_down.sql'' \<noteq> []" by simp
  have g: "\<forall>k. fs ?env k ''nope_down.sql'' = None" by (simp add: toy_env_def)
  have rs: "?rs = [\<lparr>ref_of = ?m, ref_dir = Up, ref_file = ''nope_up.sql''\<rparr>,
                   \<lparr>ref_of = ?m, ref_dir = Down, ref_file = ''nope_down.sql''\<rparr>]"
    by (simp add: file_references_def references_of_def inline_migration_def two_file_migration_def)
  have r0: "length (reads fresh_world) = 0" by (simp add: fresh_world_def constructed_def)
  from migrateTo_missing_file [OF a b c d e' f g, of Latest]
  obtain i where i: "i < length ?rs"
    "\<forall>j<i. fs ?env (Suc (length (reads fresh_world)) + j) (ref_file (?rs ! j)) \<noteq> None"
    "migrateTo ?env Latest fresh_world =
       (Inl (LoadFailed (not_found (?rs ! i))),
        fresh_world\<lparr>reads := reads fresh_world @ migrationsPath ?env # map ref_file (take (Suc i) ?rs)\<rparr>)"
    by blast
  have "i = 0"
  proof (rule ccontr)
    assume "i \<noteq> 0"
    with i(2) have "fs ?env (Suc (length (reads fresh_world)) + 0) (ref_file (?rs ! 0)) \<noteq> None"
      by blast
    then show False unfolding rs by (simp add: toy_env_def)
  qed
  with i(3) have "migrateTo ?env Latest fresh_world =
      (Inl (LoadFailed (FileNotFound 2 ''step'' Up ''nope_up.sql'')),
       fresh_world\<lparr>reads := [''migrations.yaml'', ''nope_up.sql'']\<rparr>)"
    unfolding rs
    by (simp add: not_found_def two_file_migration_def toy_env_def fresh_world_def constructed_def)
  moreover have "map ref_file ?rs = [''nope_up.sql'', ''nope_down.sql'']"
    unfolding rs by simp
  ultimately show ?thesis using a b c' e g by simp
qed

text \<open>
  A set with a gap whose migration refers to a file that does not exist: loading fails
  with the sequence error, not with the "file not found" error.
\<close>

theorem migrateTo_gap_before_missing_file:
  "up (file_migration 2 ''missing.sql'') = FileRef ''missing.sql'' \<and>
   fs (toy_env (\<lambda>k. ''gap'')) 1 ''missing.sql'' = None \<and>
   fst (migrateTo (toy_env (\<lambda>k. ''gap'')) (Version 2) (constructed (toy_env (\<lambda>k. ''gap'')) [])) =
     Inl (LoadFailed (SequenceError 1 2))"
  by (simp add: run_defs)


subsection \<open>The effect of units, steps and loops\<close>


lemma deletions_append: "deletions (xs @ ys) = deletions xs @ deletions ys"
  by (induction xs rule: deletions.induct) simp_all

lemma applyUnit_saved:
  assumes "tame env"
  shows "saved (raw (snd (applyUnit env v m sql d))) = saved (raw d)"
proof -
  obtain r1 d1 where a: "exec env (Script sql) d = (r1, d1)" by (cases "exec env (Script sql) d")
  then have b: "saved (raw d1) = saved (raw d)"
    using exec_saved [OF assms, of "Script sql" d] by simp
  show ?thesis
  proof (cases r1)
    case (Inl e)
    with a b show ?thesis by (simp add: applyUnit_def)
  next
    case (Inr u)
    with a b show ?thesis by (simp add: applyUnit_def exec_statement_saved)
  qed
qed

lemma rollbackUnit_saved:
  assumes "tame env"
  shows "saved (raw (snd (rollbackUnit env v sql d))) = saved (raw d)"
proof -
  obtain r1 d1 where a: "exec env (Script sql) d = (r1, d1)" by (cases "exec env (Script sql) d")
  then have b: "saved (raw d1) = saved (raw d)"
    using exec_saved [OF assms, of "Script sql" d] by simp
  show ?thesis
  proof (cases r1)
    case (Inl e)
    with a b show ?thesis by (simp add: rollbackUnit_def)
  next
    case (Inr u)
    with a b show ?thesis by (simp add: rollbackUnit_def exec_statement_saved)
  qed
qed

lemma exec_Script_versions:
  assumes "tame env"
  shows "versions_of (snd (exec env (Script sql) d)) = versions_of d"
proof -
  from assms have "ledger (live (snd (script env sql (raw d)))) = ledger (live (raw d))"
    by (simp add: tame_def)
  then show ?thesis
    by (cases "script env sql (raw d)")
      (auto simp: versions_of_def exec_def sqlite_exec_def split: option.splits)
qed

lemma exec_INSERT_Inr:
  "exec env (INSERT_INTO_migrations v n de a) d = (Inr u, d') \<Longrightarrow>
     versions_of d' = map_option (\<lambda>vs. vs @ [v]) (versions_of d) \<and> versions_of d \<noteq> None"
  by (auto simp: versions_of_def exec_def sqlite_exec_def split: prod.splits option.splits if_splits)

lemma exec_DELETE_Inr:
  "exec env (DELETE_FROM_migrations v) d = (Inr u, d') \<Longrightarrow>
     versions_of d' = map_option (filter (\<lambda>x. x \<noteq> v)) (versions_of d) \<and> versions_of d \<noteq> None"
  by (auto simp: versions_of_def exec_def sqlite_exec_def filter_map comp_def
      split: prod.splits option.splits if_splits)

lemma applyUnit_Inr:
  assumes "tame env" and "applyUnit env v m sql d = (Inr u, d')"
  shows "versions_of d' = map_option (\<lambda>vs. vs @ [v]) (versions_of d) \<and> versions_of d \<noteq> None \<and>
         deletions (issued d') = deletions (issued d)"
proof -
  obtain r1 d1 where a: "exec env (Script sql) d = (r1, d1)" by (cases "exec env (Script sql) d")
  have v1: "versions_of d1 = versions_of d"
    using exec_Script_versions [OF assms(1), of sql d] a by simp
  have i1: "issued d1 = issued d @ [Script sql]" using exec_issued [of env "Script sql" d] a by simp
  from assms(2) a obtain u1 where r1: "r1 = Inr u1" by (cases r1) (simp_all add: applyUnit_def)
  let ?ins = "INSERT_INTO_migrations v (name m) (description m) (date_now env (length (issued d1)))"
  from assms(2) a r1 have b: "exec env ?ins d1 = (Inr u, d')" by (simp add: applyUnit_def)
  have i2: "issued d' = issued d1 @ [?ins]" using exec_issued [of env ?ins d1] b by simp
  from exec_INSERT_Inr [OF b] v1 i1 i2 show ?thesis by (simp add: deletions_append)
qed

lemma rollbackUnit_Inr:
  assumes "tame env" and "rollbackUnit env v sql d = (Inr u, d')"
  shows "versions_of d' = map_option (filter (\<lambda>x. x \<noteq> v)) (versions_of d) \<and> versions_of d \<noteq> None \<and>
         deletions (issued d') = deletions (issued d) @ [v]"
proof -
  obtain r1 d1 where a: "exec env (Script sql) d = (r1, d1)" by (cases "exec env (Script sql) d")
  have v1: "versions_of d1 = versions_of d"
    using exec_Script_versions [OF assms(1), of sql d] a by simp
  have i1: "issued d1 = issued d @ [Script sql]" using exec_issued [of env "Script sql" d] a by simp
  from assms(2) a obtain u1 where r1: "r1 = Inr u1" by (cases r1) (simp_all add: rollbackUnit_def)
  from assms(2) a r1 have b: "exec env (DELETE_FROM_migrations v) d1 = (Inr u, d')"
    by (simp add: rollbackUnit_def)
  have i2: "issued d' = issued d1 @ [DELETE_FROM_migrations v]"
    using exec_issued [of env "DELETE_FROM_migrations v" d1] b by simp
  from exec_DELETE_Inr [OF b] v1 i1 i2 show ?thesis by (simp add: deletions_append)
qed

lemma transaction_idle_cases:
  assumes "idle d" and "\<And>x. saved (raw (snd (fn x))) = saved (raw x)"
  obtains (commit) r d2 where "fn (begun d) = (Inr r, d2)"
      "transaction env fn d =
        (Inr r, d2\<lparr>raw := (raw d2)\<lparr>saved := None\<rparr>, issued := issued d2 @ [COMMIT],
                  inTransaction := False\<rparr>)"
    | (rejected) r d2 msg where "fn (begun d) = (Inr r, d2)"
      "transaction env fn d =
        (Inl (SqliteError msg),
         d2\<lparr>raw := (raw d2)\<lparr>live := live (raw d), saved := None\<rparr>,
            issued := issued d2 @ [COMMIT, ROLLBACK], inTransaction := False\<rparr>)"
    | (rollback) e d2 where "fn (begun d) = (Inl e, d2)"
      "transaction env fn d =
        (Inl e, d2\<lparr>raw := (raw d2)\<lparr>live := live (raw d), saved := None\<rparr>,
                  issued := issued d2 @ [ROLLBACK], inTransaction := False\<rparr>)"
proof (cases "fn (begun d)")
  case (Pair a d2)
  have sv: "saved (raw d2) = Some (live (raw d))"
    using assms(2) [of "begun d"] Pair by (simp add: begun_def)
  show ?thesis
  proof (cases a)
    case (Inl e)
    with Pair transaction_idle_Inl [OF assms(1) _ sv, of fn e env] rollback show ?thesis by simp
  next
    case (Inr r)
    show ?thesis
    proof (cases "commit_check env (live (raw d2))")
      case None
      with Pair Inr transaction_idle_Inr [OF assms(1) _ sv, of fn r env] commit show ?thesis
        by simp
    next
      case (Some msg)
      with Pair Inr transaction_idle_rejected [OF assms(1) _ sv, of fn r env msg] rejected
      show ?thesis by simp
    qed
  qed
qed

lemma begun_versions [simp]: "versions_of (begun d) = versions_of d"
  by (simp add: versions_of_def begun_def)

lemma begun_issued [simp]: "deletions (issued (begun d)) = deletions (issued d)"
  by (simp add: begun_def deletions_append)

lemma versions_of_committed [simp]:
  "versions_of (d\<lparr>raw := (raw d)\<lparr>saved := None\<rparr>, issued := i, inTransaction := b\<rparr>) = versions_of d"
  by (simp add: versions_of_def)

lemma resolveSql_db [simp]: "db (snd (resolveSql env sql v dir w)) = db w"
  by (auto simp: resolveSql_def readTextFile_def split: option.splits sql_source.splits)

lemma transaction_applyUnit:
  assumes "tame env" and "idle d" and "transaction env (applyUnit env v m sql) d = (r, d')"
  shows "idle d' \<and>
    (case r of
       Inl e \<Rightarrow> live (raw d') = live (raw d)
     | Inr u \<Rightarrow> versions_of d' = map_option (\<lambda>vs. vs @ [v]) (versions_of d) \<and> versions_of d \<noteq> None \<and>
         deletions (issued d') = deletions (issued d))"
  using assms(2) applyUnit_saved [OF assms(1)]
proof (cases rule: transaction_idle_cases [where fn = "applyUnit env v m sql" and env = env])
  case (commit u d2)
  from applyUnit_Inr [OF assms(1) commit(1)] commit(2) assms(3) show ?thesis
    by (simp add: idle_def deletions_append)
next
  case (rejected u d2 msg)
  with assms(3) show ?thesis by (auto simp: idle_def)
next
  case (rollback e d2)
  with assms(3) show ?thesis by (auto simp: idle_def)
qed

lemma transaction_rollbackUnit:
  assumes "tame env" and "idle d" and "transaction env (rollbackUnit env v sql) d = (r, d')"
  shows "idle d' \<and>
    (case r of
       Inl e \<Rightarrow> live (raw d') = live (raw d)
     | Inr u \<Rightarrow> versions_of d' = map_option (filter (\<lambda>x. x \<noteq> v)) (versions_of d) \<and> versions_of d \<noteq> None \<and>
         deletions (issued d') = deletions (issued d) @ [v])"
  using assms(2) rollbackUnit_saved [OF assms(1)]
proof (cases rule: transaction_idle_cases [where fn = "rollbackUnit env v sql" and env = env])
  case (commit u d2)
  from rollbackUnit_Inr [OF assms(1) commit(1)] commit(2) assms(3) show ?thesis
    by (simp add: idle_def deletions_append)
next
  case (rejected u d2 msg)
  with assms(3) show ?thesis by (auto simp: idle_def)
next
  case (rollback e d2)
  with assms(3) show ?thesis by (auto simp: idle_def)
qed

lemma migrateUpStep_effect:
  assumes "idle (db w)" and "migrateUpStep env ms v w = (r, w')" and tame: "tame env"
  shows "idle (db w') \<and>
    (case r of
       Inl e \<Rightarrow> live (raw (db w')) = live (raw (db w))
     | Inr u \<Rightarrow> versions_of (db w') = map_option (\<lambda>vs. vs @ [v]) (versions_of (db w)) \<and>
         versions_of (db w) \<noteq> None \<and>
         deletions (issued (db w')) = deletions (issued (db w)) \<and>
         find (\<lambda>m. version m = v) ms \<noteq> None)"
proof (cases "find (\<lambda>m. version m = v) ms")
  case None
  with assms show ?thesis by (auto simp: migrateUpStep_def)
next
  case (Some m)
  obtain rr w1 where res: "resolveSql env (Some (up m)) v Up w = (rr, w1)"
    by (cases "resolveSql env (Some (up m)) v Up w")
  then have d1: "db w1 = db w" using resolveSql_db [of env "Some (up m)" v Up w] by simp
  show ?thesis
  proof (cases rr)
    case (Inl e)
    with assms Some res d1 show ?thesis by (auto simp: migrateUpStep_def)
  next
    case (Inr x)
    note rr = this
    show ?thesis
    proof (cases x)
      case None
      with assms Some res d1 rr show ?thesis by (auto simp: migrateUpStep_def)
    next
      case (Some sql)
      note x = this
      show ?thesis
      proof (cases "sql = []")
        case True
        with assms \<open>find (\<lambda>m. version m = v) ms = Some m\<close> res d1 rr x show ?thesis
          by (auto simp: migrateUpStep_def)
      next
        case False
        obtain rt d where t: "transaction env (applyUnit env v m sql) (db w1) = (rt, d)"
          by (cases "transaction env (applyUnit env v m sql) (db w1)")
        from assms(1) d1 have "idle (db w1)" by simp
        from transaction_applyUnit [OF tame this t, unfolded d1]
        have eff: "idle d \<and>
          (case rt of
             Inl e \<Rightarrow> live (raw d) = live (raw (db w))
           | Inr u \<Rightarrow> versions_of d = map_option (\<lambda>vs. vs @ [v]) (versions_of (db w)) \<and>
               versions_of (db w) \<noteq> None \<and> deletions (issued d) = deletions (issued (db w)))"
          by simp
        from assms(2) \<open>find (\<lambda>m. version m = v) ms = Some m\<close> res rr x False t
        have "(r, w') = (case rt of Inl e \<Rightarrow> (Inl (ApplyFailed v e), w1\<lparr>db := d\<rparr>)
                                | Inr u \<Rightarrow> (Inr (), w1\<lparr>db := d\<rparr>))"
          by (simp add: migrateUpStep_def)
        with eff \<open>find (\<lambda>m. version m = v) ms = Some m\<close> show ?thesis
          by (cases rt) auto
      qed
    qed
  qed
qed

lemma migrateDownStep_effect:
  assumes "idle (db w)" and "migrateDownStep env ms v w = (r, w')" and tame: "tame env"
  shows "idle (db w') \<and>
    (case r of
       Inl e \<Rightarrow> live (raw (db w')) = live (raw (db w))
     | Inr u \<Rightarrow> versions_of (db w') = map_option (filter (\<lambda>x. x \<noteq> v)) (versions_of (db w)) \<and>
         versions_of (db w) \<noteq> None \<and>
         deletions (issued (db w')) = deletions (issued (db w)) @ [v] \<and>
         find (\<lambda>m. version m = v) ms \<noteq> None)"
proof (cases "find (\<lambda>m. version m = v) ms")
  case None
  with assms show ?thesis by (auto simp: migrateDownStep_def)
next
  case (Some m)
  note found = this
  show ?thesis
  proof (cases "\<not> reversible m \<or> falsy (down m)")
    case True
    with assms found show ?thesis by (auto simp: migrateDownStep_def split: if_splits)
  next
    case False
    note go = this
    obtain rr w1 where res: "resolveSql env (down m) v Down w = (rr, w1)"
      by (cases "resolveSql env (down m) v Down w")
    then have d1: "db w1 = db w" using resolveSql_db [of env "down m" v Down w] by simp
    show ?thesis
    proof (cases rr)
      case (Inl e)
      with assms found go res d1 show ?thesis by (auto simp: migrateDownStep_def)
    next
      case (Inr x)
      note rr = this
      show ?thesis
      proof (cases x)
        case None
        with assms found go res d1 rr show ?thesis by (auto simp: migrateDownStep_def)
      next
        case (Some sql)
        note x = this
        show ?thesis
        proof (cases "sql = []")
          case True
          with assms found go res d1 rr x show ?thesis
            by (auto simp: migrateDownStep_def)
        next
          case False
          obtain rt d where t: "transaction env (rollbackUnit env v sql) (db w1) = (rt, d)"
            by (cases "transaction env (rollbackUnit env v sql) (db w1)")
          from assms(1) d1 have "idle (db w1)" by simp
          from transaction_rollbackUnit [OF tame this t, unfolded d1]
          have eff: "idle d \<and>
            (case rt of
               Inl e \<Rightarrow> live (raw d) = live (raw (db w))
             | Inr u \<Rightarrow> versions_of d = map_option (filter (\<lambda>x. x \<noteq> v)) (versions_of (db w)) \<and>
                 versions_of (db w) \<noteq> None \<and> deletions (issued d) = deletions (issued (db w)) @ [v])"
            by simp
          from assms(2) found go res rr x False t
          have "(r, w') = (case rt of Inl e \<Rightarrow> (Inl (RollbackFailed v e), w1\<lparr>db := d\<rparr>)
                                  | Inr u \<Rightarrow> (Inr (), w1\<lparr>db := d\<rparr>))"
            by (simp add: migrateDownStep_def)
          with eff found show ?thesis
            by (cases rt) auto
        qed
      qed
    qed
  qed
qed

lemma upLoop_prefix:
  "a \<le> v \<Longrightarrow> v \<le> t \<Longrightarrow> upLoop env ms a (v - 1) w = (Inr (), w1) \<Longrightarrow>
     upLoop env ms a t w = upLoop env ms v t w1"
proof (induction "nat (v - a)" arbitrary: a w)
  case 0
  then have "a = v" by simp
  with 0 show ?case by (simp add: upLoop.simps [of env ms v "v - 1"])
next
  case (Suc k)
  then have lt: "a \<le> v - 1" "a \<le> t" by simp_all
  obtain r w' where st: "migrateUpStep env ms a w = (r, w')" by (cases "migrateUpStep env ms a w")
  from Suc.prems(3) lt st obtain u where r: "r = Inr u"
    by (cases r) (simp_all add: upLoop.simps [of env ms a "v - 1"])
  from Suc.prems(3) lt st r have rest: "upLoop env ms (a + 1) (v - 1) w' = (Inr (), w1)"
    by (simp add: upLoop.simps [of env ms a "v - 1"])
  have "upLoop env ms (a + 1) t w' = upLoop env ms v t w1"
  proof (rule Suc.hyps(1))
    show "k = nat (v - (a + 1))" using Suc.hyps(2) by simp
    show "a + 1 \<le> v" using lt by simp
    show "v \<le> t" by fact
    show "upLoop env ms (a + 1) (v - 1) w' = (Inr (), w1)" by fact
  qed
  with lt st r show ?case by (simp add: upLoop.simps [of env ms a t])
qed

lemma downLoop_prefix:
  "t \<le> v \<Longrightarrow> v \<le> a \<Longrightarrow> downLoop env ms a v w = (Inr (), w1) \<Longrightarrow>
     downLoop env ms a t w = downLoop env ms v t w1"
proof (induction "nat (a - v)" arbitrary: a w)
  case 0
  then have "a = v" by simp
  with 0 show ?case by (simp add: downLoop.simps [of env ms v v])
next
  case (Suc k)
  then have lt: "v < a" "t < a" by simp_all
  obtain r w' where st: "migrateDownStep env ms a w = (r, w')" by (cases "migrateDownStep env ms a w")
  from Suc.prems(3) lt st obtain u where r: "r = Inr u"
    by (cases r) (simp_all add: downLoop.simps [of env ms a v])
  from Suc.prems(3) lt st r have rest: "downLoop env ms (a - 1) v w' = (Inr (), w1)"
    by (simp add: downLoop.simps [of env ms a v])
  have "downLoop env ms (a - 1) t w' = downLoop env ms v t w1"
  proof (rule Suc.hyps(1))
    show "k = nat (a - 1 - v)" using Suc.hyps(2) by simp
    show "v \<le> a - 1" using lt by simp
    show "t \<le> v" by fact
    show "downLoop env ms (a - 1) v w' = (Inr (), w1)" by fact
  qed
  with lt st r show ?case by (simp add: downLoop.simps [of env ms a t])
qed

lemma upLoop_effect:
  assumes tame: "tame env"
  shows "idle (db w) \<Longrightarrow> upLoop env ms a t w = (r, w') \<Longrightarrow>
     idle (db w') \<and>
     (case r of
        Inl e \<Rightarrow> True
      | Inr u \<Rightarrow> versions_of (db w') = map_option (\<lambda>vs. vs @ [a .. t]) (versions_of (db w)) \<and>
          deletions (issued (db w')) = deletions (issued (db w)))"
proof (induction "nat (t + 1 - a)" arbitrary: a w)
  case 0
  then have "\<not> a \<le> t" by simp
  with 0 show ?case
    by (cases "versions_of (db w)") (auto simp: upLoop.simps [of env ms a t])
next
  case (Suc k)
  then have le: "a \<le> t" by simp
  obtain rs ws where st: "migrateUpStep env ms a w = (rs, ws)" by (cases "migrateUpStep env ms a w")
  note eff = migrateUpStep_effect [OF Suc.prems(1) st tame]
  show ?case
  proof (cases rs)
    case (Inl e)
    with Suc.prems(2) le st eff show ?thesis by (auto simp: upLoop.simps [of env ms a t])
  next
    case (Inr u)
    with Suc.prems(2) le st have rest: "upLoop env ms (a + 1) t ws = (r, w')"
      by (simp add: upLoop.simps [of env ms a t])
    from eff have iws: "idle (db ws)" by simp
    have k: "k = nat (t + 1 - (a + 1))" using Suc.hyps(2) by simp
    note ih = Suc.hyps(1) [OF k iws rest]
    have split: "[a .. t] = a # [a + 1 .. t]" using le by (simp add: upto_rec1)
    show ?thesis
    proof (cases r)
      case (Inl e)
      with ih show ?thesis by simp
    next
      case r: (Inr u2)
      from eff Inr have "versions_of (db ws) = map_option (\<lambda>vs. vs @ [a]) (versions_of (db w))"
        "deletions (issued (db ws)) = deletions (issued (db w))" by simp_all
      with ih r split show ?thesis
        by (cases "versions_of (db w)") simp_all
    qed
  qed
qed

lemma downLoop_effect:
  assumes tame: "tame env"
  shows "idle (db w) \<Longrightarrow> downLoop env ms a t w = (r, w') \<Longrightarrow>
     idle (db w') \<and>
     (case r of
        Inl e \<Rightarrow> True
      | Inr u \<Rightarrow> versions_of (db w') =
            map_option (filter (\<lambda>x. \<not> (t < x \<and> x \<le> a))) (versions_of (db w)) \<and>
          deletions (issued (db w')) = deletions (issued (db w)) @ rev [t + 1 .. a] \<and>
          (\<forall>u. t < u \<and> u \<le> a \<longrightarrow> find (\<lambda>m. version m = u) ms \<noteq> None))"
proof (induction "nat (a - t)" arbitrary: a w)
  case 0
  then have "\<not> t < a" by simp
  with 0 show ?case
    by (cases "versions_of (db w)") (auto simp: downLoop.simps [of env ms a t])
next
  case (Suc k)
  then have lt: "t < a" by simp
  obtain rs ws where st: "migrateDownStep env ms a w = (rs, ws)"
    by (cases "migrateDownStep env ms a w")
  note eff = migrateDownStep_effect [OF Suc.prems(1) st tame]
  show ?case
  proof (cases rs)
    case (Inl e)
    with Suc.prems(2) lt st eff show ?thesis by (auto simp: downLoop.simps [of env ms a t])
  next
    case (Inr u)
    with Suc.prems(2) lt st have rest: "downLoop env ms (a - 1) t ws = (r, w')"
      by (simp add: downLoop.simps [of env ms a t])
    from eff have iws: "idle (db ws)" by simp
    have k: "k = nat (a - 1 - t)" using Suc.hyps(2) by simp
    note ih = Suc.hyps(1) [OF k iws rest]
    have split: "[t + 1 .. a] = [t + 1 .. a - 1] @ [a]" using lt by (simp add: upto_rec2)
    show ?thesis
    proof (cases r)
      case (Inl e)
      with ih show ?thesis by simp
    next
      case r: (Inr u2)
      from eff Inr have s1: "versions_of (db ws) = map_option (filter (\<lambda>x. x \<noteq> a)) (versions_of (db w))"
        "deletions (issued (db ws)) = deletions (issued (db w)) @ [a]"
        "find (\<lambda>m. version m = a) ms \<noteq> None" by simp_all
      from ih r have s2: "versions_of (db w') =
            map_option (filter (\<lambda>x. \<not> (t < x \<and> x \<le> a - 1))) (versions_of (db ws))"
          "deletions (issued (db w')) = deletions (issued (db ws)) @ rev [t + 1 .. a - 1]"
          "\<forall>u. t < u \<and> u \<le> a - 1 \<longrightarrow> find (\<lambda>m. version m = u) ms \<noteq> None" by simp_all
      have f: "\<And>x. (\<not> (t < x \<and> x \<le> a - 1) \<and> x \<noteq> a) = (\<not> (t < x \<and> x \<le> a))"
        using lt by auto
      have v: "versions_of (db w') = map_option (filter (\<lambda>x. \<not> (t < x \<and> x \<le> a))) (versions_of (db w))"
      proof (cases "versions_of (db w)")
        case None
        with s1(1) s2(1) show ?thesis by simp
      next
        case (Some vs)
        have "filter (\<lambda>x. \<not> (t < x \<and> x \<le> a - 1)) (filter (\<lambda>x. x \<noteq> a) vs) =
              filter (\<lambda>x. \<not> (t < x \<and> x \<le> a)) vs"
          unfolding filter_filter using lt by (intro filter_cong) auto
        with Some s1(1) s2(1) show ?thesis by simp
      qed
      have d: "deletions (issued (db w')) = deletions (issued (db w)) @ rev [t + 1 .. a]"
        using s1(2) s2(2) split by simp
      have n: "\<forall>u. t < u \<and> u \<le> a \<longrightarrow> find (\<lambda>m. version m = u) ms \<noteq> None"
      proof (intro allI impI)
        fix u assume "t < u \<and> u \<le> a"
        then have "u = a \<or> (t < u \<and> u \<le> a - 1)" by auto
        with s1(3) s2(3) show "find (\<lambda>m. version m = u) ms \<noteq> None" by blast
      qed
      from ih r v d n show ?thesis by simp
    qed
  qed
qed

lemma resolveTarget_db [simp]: "db (snd (resolveTarget env tgt w)) = db w"
proof (cases tgt)
  case Latest
  obtain r w1 where l: "loadMigrations env w = (r, w1)" by (cases "loadMigrations env w")
  then have "db w1 = db w" using loadMigrations_db [of env w] by simp
  with Latest l show ?thesis by (cases r) (simp_all add: resolveTarget_def getLatestVersion_def)
next
  case (Version n)
  then show ?thesis by (simp add: resolveTarget_def)
qed

lemma migrateTo_steps:
  assumes "loadMigrations env w = (Inr ms, wa)" and "getCurrentVersion (db wa) = Inr cur"
    and "resolveTarget env tgt wa = (Inr t, wb)"
  shows "migrateTo env tgt w =
           (if cur = t then (Inr (), wb)
            else if cur < t then migrateUp env cur t ms wb else migrateDown env cur t ms wb)"
  using assms by (simp add: migrateTo_def)

lemma steps_db:
  assumes "loadMigrations env w = (Inr ms, wa)" and "resolveTarget env tgt wa = (Inr t, wb)"
  shows "db wa = db w" and "db wb = db w"
proof -
  show a: "db wa = db w" using loadMigrations_db [of env w] assms(1) by simp
  show "db wb = db w" using resolveTarget_db [of env tgt wa] assms(2) a by simp
qed

subsection \<open>Failing steps\<close>

lemma applied_versions_of:
  "applied_versions d = (case versions_of d of None \<Rightarrow> [] | Some vs \<Rightarrow> vs)"
  by (simp add: applied_versions_def versions_of_def split: option.splits)


text \<open>
  C3. In a call of \<^verbatim>\<open>migrateTo\<close> whose set is loaded, whose current version is
  \<open>cur\<close> and whose target is \<open>t\<close> (a number passed as it is, or the latest version),
  let the steps before version \<open>v\<close> have succeeded and let no migration of the set
  have version \<open>v\<close>. Then the call fails with "Migration version v not found" and its
  final state is exactly the state after the earlier steps: nothing was read and no
  statement was issued for the missing step. Where the scripts leave the transaction and
  the \<^verbatim>\<open>migrations\<close> table alone, no transaction is open and the ledger holds
  what the earlier steps made of it. This is so going up and going down.
\<close>

theorem migrateTo_version_not_found:
  assumes "loadMigrations env w = (Inr ms, wa)" and "getCurrentVersion (db wa) = Inr cur"
    and "resolveTarget env tgt wa = (Inr t, wb)" and "idle (db w)"
    and "find (\<lambda>m. version m = v) ms = None"
  shows "(cur < v \<and> v \<le> t \<and> migrateUp env cur (v - 1) ms wb = (Inr (), w1) \<longrightarrow>
           migrateTo env tgt w = (Inl (VersionNotFound v), w1) \<and>
           (tame env \<longrightarrow> idle (db w1) \<and>
              versions_of (db w1) = map_option (\<lambda>vs. vs @ [cur + 1 .. v - 1]) (versions_of (db w)))) \<and>
         (t < v \<and> v \<le> cur \<and> migrateDown env cur v ms wb = (Inr (), w1) \<longrightarrow>
           migrateTo env tgt w = (Inl (VersionNotFound v), w1) \<and>
           (tame env \<longrightarrow> idle (db w1) \<and>
              versions_of (db w1) =
                map_option (filter (\<lambda>x. \<not> (v < x \<and> x \<le> cur))) (versions_of (db w))))"
proof (intro conjI impI)
  note dbs = steps_db [OF assms(1,3)]
  from assms(4) dbs have iwb: "idle (db wb)" by simp
  {
    assume a: "cur < v \<and> v \<le> t \<and> migrateUp env cur (v - 1) ms wb = (Inr (), w1)"
    then have prior: "upLoop env ms (cur + 1) (v - 1) wb = (Inr (), w1)" by (simp add: migrateUp_def)
    from a have "upLoop env ms (cur + 1) t wb = upLoop env ms v t w1"
      by (intro upLoop_prefix [OF _ _ prior]) simp_all
    also have "\<dots> = (Inl (VersionNotFound v), w1)"
      using a assms(5) by (simp add: upLoop.simps [of env ms v t] migrateUpStep_def)
    finally have "migrateUp env cur t ms wb = (Inl (VersionNotFound v), w1)"
      by (simp add: migrateUp_def)
    with a migrateTo_steps [OF assms(1,2,3)]
    show "migrateTo env tgt w = (Inl (VersionNotFound v), w1)" by simp
    assume tame: "tame env"
    from upLoop_effect [OF tame iwb prior] dbs
    show "idle (db w1)"
      and "versions_of (db w1) = map_option (\<lambda>vs. vs @ [cur + 1 .. v - 1]) (versions_of (db w))"
      by simp_all
  }
  {
    assume a: "t < v \<and> v \<le> cur \<and> migrateDown env cur v ms wb = (Inr (), w1)"
    then have prior: "downLoop env ms cur v wb = (Inr (), w1)" by (simp add: migrateDown_def)
    from a have "downLoop env ms cur t wb = downLoop env ms v t w1"
      by (intro downLoop_prefix [OF _ _ prior]) simp_all
    also have "\<dots> = (Inl (VersionNotFound v), w1)"
      using a assms(5) by (simp add: downLoop.simps [of env ms v t] migrateDownStep_def)
    finally have "migrateDown env cur t ms wb = (Inl (VersionNotFound v), w1)"
      by (simp add: migrateDown_def)
    with a migrateTo_steps [OF assms(1,2,3)]
    show "migrateTo env tgt w = (Inl (VersionNotFound v), w1)" by auto
    assume tame: "tame env"
    from downLoop_effect [OF tame iwb prior] dbs
    show "idle (db w1)"
      and "versions_of (db w1) =
             map_option (filter (\<lambda>x. \<not> (v < x \<and> x \<le> cur))) (versions_of (db w))"
      by simp_all
  }
qed

theorem migrateTo_version_not_found_witness:
  "tame (toy_env (\<lambda>k. ''two'')) \<and> tame (toy_env (\<lambda>k. ''one'')) \<and>
   loadMigrations (toy_env (\<lambda>k. ''two'')) fresh_world =
     (Inr [inline_migration 1 True, inline_migration 2 True], world_at_two\<lparr>db := db fresh_world\<rparr>) \<and>
   getCurrentVersion (db fresh_world) = Inr 0 \<and>
   idle (db fresh_world) \<and>
   find (\<lambda>m. version m = 3) [inline_migration 1 True, inline_migration 2 True] = None \<and>
   migrateUp (toy_env (\<lambda>k. ''two'')) 0 (3 - 1) [inline_migration 1 True, inline_migration 2 True]
       (world_at_two\<lparr>db := db fresh_world\<rparr>) = (Inr (), world_at_two) \<and>
   migrateTo (toy_env (\<lambda>k. ''two'')) (Version 3) fresh_world = (Inl (VersionNotFound 3), world_at_two) \<and>
   versions_of (db world_at_two) = Some [1, 2] \<and>
   find (\<lambda>m. version m = 2) [inline_migration 1 True] = None \<and>
   migrateDown (toy_env (\<lambda>k. ''one'')) 2 2 [inline_migration 1 True]
       (snd (loadMigrations (toy_env (\<lambda>k. ''one'')) world_at_two)) =
     (Inr (), snd (loadMigrations (toy_env (\<lambda>k. ''one'')) world_at_two)) \<and>
   migrateTo (toy_env (\<lambda>k. ''one'')) (Version 0) world_at_two =
     (Inl (VersionNotFound 2), snd (loadMigrations (toy_env (\<lambda>k. ''one'')) world_at_two))"
proof -
  let ?E = "toy_env (\<lambda>k. ''two'')"
  let ?ms = "[inline_migration 1 True, inline_migration 2 True]"
  let ?wa = "world_at_two\<lparr>db := db fresh_world\<rparr>"
  have tm: "\<And>source. tame (toy_env source)"
    by (simp add: tame_def toy_env_def toy_script_def)
  have l: "loadMigrations ?E fresh_world = (Inr ?ms, ?wa)" by (simp add: run_defs)
  have c0: "getCurrentVersion (db fresh_world) = Inr 0" by (simp add: run_defs)
  have c: "getCurrentVersion (db ?wa) = Inr 0" by (simp add: run_defs)
  have r: "resolveTarget ?E (Version 3) ?wa = (Inr 3, ?wa)" by (simp add: resolveTarget_def)
  have i: "idle (db fresh_world)" by (simp add: idle_def run_defs)
  have f: "find (\<lambda>m. version m = 3) ?ms = None" by (simp add: inline_migration_def)
  have p: "migrateUp ?E 0 (3 - 1) ?ms ?wa = (Inr (), world_at_two)" by (simp add: run_defs)
  from migrateTo_version_not_found [OF l c r i f, of world_at_two, THEN conjunct1] p tm [of "\<lambda>k. ''two''"]
  have up: "migrateTo ?E (Version 3) fresh_world = (Inl (VersionNotFound 3), world_at_two) \<and>
      versions_of (db world_at_two) = map_option (\<lambda>vs. vs @ [0 + 1 .. 3 - 1]) (versions_of (db fresh_world))"
    by simp
  have v0: "versions_of (db fresh_world) = Some []" by (simp add: versions_of_def run_defs)
  have u12: "[0 + 1 .. 3 - 1] = [1, 2::int]" by (simp add: upto_rec1)
  let ?E1 = "toy_env (\<lambda>k. ''one'')"
  let ?ms1 = "[inline_migration 1 True]"
  let ?wa1 = "snd (loadMigrations ?E1 world_at_two)"
  have l1: "loadMigrations ?E1 world_at_two = (Inr ?ms1, ?wa1)" by (simp add: run_defs)
  have c1: "getCurrentVersion (db ?wa1) = Inr 2" by (simp add: run_defs)
  have r1: "resolveTarget ?E1 (Version 0) ?wa1 = (Inr 0, ?wa1)" by (simp add: resolveTarget_def)
  have i1: "idle (db world_at_two)" by (simp add: idle_def run_defs)
  have f1: "find (\<lambda>m. version m = 2) ?ms1 = None" by (simp add: inline_migration_def)
  have p1: "migrateDown ?E1 2 2 ?ms1 ?wa1 = (Inr (), ?wa1)"
    by (simp add: migrateDown_def downLoop.simps [of _ _ 2 2])
  from migrateTo_version_not_found [OF l1 c1 r1 i1 f1, of ?wa1, THEN conjunct2] p1
  have down: "migrateTo ?E1 (Version 0) world_at_two = (Inl (VersionNotFound 2), ?wa1)"
    by simp
  from tm l c0 i f p up v0 u12 f1 p1 down show ?thesis by simp
qed

text \<open>
  C5. In a call of \<^verbatim>\<open>migrateTo\<close> that goes down, let the steps above version
  \<open>v\<close> have succeeded and let the migration with version \<open>v\<close> have
  \<^verbatim>\<open>reversible = false\<close>. Then the call fails with "Migration v (name) is not
  reversible", whatever its \<^verbatim>\<open>down\<close> is (so also when it is \<^verbatim>\<open>null\<close>: this
  check comes before the one for a missing rollback script); the final state is exactly
  the state before that step (no file read, no statement issued, no unit opened). Where
  the scripts leave the transaction and the \<^verbatim>\<open>migrations\<close> table alone, no
  transaction is open, the ledger holds what the steps above \<open>v\<close> made of it, and
  version \<open>v\<close> is still in the ledger if it was there.
\<close>

theorem migrateTo_not_reversible:
  assumes "loadMigrations env w = (Inr ms, wa)" and "getCurrentVersion (db wa) = Inr cur"
    and "resolveTarget env tgt wa = (Inr t, wb)" and "idle (db w)"
    and "t < v" and "v \<le> cur"
    and "migrateDown env cur v ms wb = (Inr (), w1)"
    and "find (\<lambda>m. version m = v) ms = Some m" and "\<not> reversible m"
  shows "migrateTo env tgt w = (Inl (NotReversible v (name m)), w1) \<and>
         migrateDownStep env ms v w1 = (Inl (NotReversible v (name m)), w1) \<and>
         (tame env \<longrightarrow>
            idle (db w1) \<and>
            versions_of (db w1) =
              map_option (filter (\<lambda>x. \<not> (v < x \<and> x \<le> cur))) (versions_of (db w)) \<and>
            (v \<in> set (applied_versions (db w)) \<longrightarrow> v \<in> set (applied_versions (db w1))))"
proof -
  note dbs = steps_db [OF assms(1,3)]
  from assms(4) dbs have iwb: "idle (db wb)" by simp
  from assms(7) have prior: "downLoop env ms cur v wb = (Inr (), w1)" by (simp add: migrateDown_def)
  have step: "migrateDownStep env ms v w1 = (Inl (NotReversible v (name m)), w1)"
    using assms(8,9) by (simp add: migrateDownStep_def)
  from assms(5,6) have "downLoop env ms cur t wb = downLoop env ms v t w1"
    by (intro downLoop_prefix [OF _ _ prior]) simp_all
  also have "\<dots> = (Inl (NotReversible v (name m)), w1)"
    using assms(5) step by (simp add: downLoop.simps [of env ms v t])
  finally have "migrateDown env cur t ms wb = (Inl (NotReversible v (name m)), w1)"
    by (simp add: migrateDown_def)
  with assms(5,6) migrateTo_steps [OF assms(1,2,3)]
  have a: "migrateTo env tgt w = (Inl (NotReversible v (name m)), w1)" by auto
  have rest: "tame env \<longrightarrow>
            idle (db w1) \<and>
            versions_of (db w1) =
              map_option (filter (\<lambda>x. \<not> (v < x \<and> x \<le> cur))) (versions_of (db w)) \<and>
            (v \<in> set (applied_versions (db w)) \<longrightarrow> v \<in> set (applied_versions (db w1)))"
  proof
    assume tame: "tame env"
    from downLoop_effect [OF tame iwb prior] dbs
    have b: "idle (db w1)"
      and c: "versions_of (db w1) =
                map_option (filter (\<lambda>x. \<not> (v < x \<and> x \<le> cur))) (versions_of (db w))"
      by simp_all
    from c have d: "v \<in> set (applied_versions (db w)) \<longrightarrow> v \<in> set (applied_versions (db w1))"
      by (cases "versions_of (db w)") (simp_all add: applied_versions_of)
    from b c d show "idle (db w1) \<and>
            versions_of (db w1) =
              map_option (filter (\<lambda>x. \<not> (v < x \<and> x \<le> cur))) (versions_of (db w)) \<and>
            (v \<in> set (applied_versions (db w)) \<longrightarrow> v \<in> set (applied_versions (db w1)))"
      by simp
  qed
  from a step rest show ?thesis by simp
qed

theorem migrateTo_not_reversible_witness:
  "tame (toy_env (\<lambda>k. ''fixed'')) \<and>
   loadMigrations (toy_env (\<lambda>k. ''fixed'')) world_at_two =
     (Inr [inline_migration 1 True, inline_migration 2 False],
      snd (loadMigrations (toy_env (\<lambda>k. ''fixed'')) world_at_two)) \<and>
   getCurrentVersion (db world_at_two) = Inr 2 \<and>
   idle (db world_at_two) \<and>
   find (\<lambda>m. version m = 2) [inline_migration 1 True, inline_migration 2 False] =
     Some (inline_migration 2 False) \<and>
   \<not> reversible (inline_migration 2 False) \<and>
   migrateTo (toy_env (\<lambda>k. ''fixed'')) (Version 1) world_at_two =
     (Inl (NotReversible 2 ''step''), snd (loadMigrations (toy_env (\<lambda>k. ''fixed'')) world_at_two)) \<and>
   db (snd (loadMigrations (toy_env (\<lambda>k. ''fixed'')) world_at_two)) = db world_at_two \<and>
   2 \<in> set (applied_versions (db world_at_two))"
proof -
  let ?E = "toy_env (\<lambda>k. ''fixed'')"
  let ?ms = "[inline_migration 1 True, inline_migration 2 False]"
  let ?wa = "snd (loadMigrations ?E world_at_two)"
  have tm: "\<And>source. tame (toy_env source)"
    by (simp add: tame_def toy_env_def toy_script_def)
  have l: "loadMigrations ?E world_at_two = (Inr ?ms, ?wa)" by (simp add: run_defs)
  have c: "getCurrentVersion (db ?wa) = Inr 2" by (simp add: run_defs)
  have c0: "getCurrentVersion (db world_at_two) = Inr 2" by (simp add: run_defs)
  have r: "resolveTarget ?E (Version 1) ?wa = (Inr 1, ?wa)" by (simp add: resolveTarget_def)
  have i: "idle (db world_at_two)" by (simp add: idle_def run_defs)
  have f: "find (\<lambda>m. version m = 2) ?ms = Some (inline_migration 2 False)"
    by (simp add: inline_migration_def)
  have n: "\<not> reversible (inline_migration 2 False)" by (simp add: inline_migration_def)
  have p: "migrateDown ?E 2 2 ?ms ?wa = (Inr (), ?wa)"
    by (simp add: migrateDown_def downLoop.simps [of _ _ 2 2])
  have a: "2 \<in> set (applied_versions (db world_at_two))"
    by (simp add: applied_versions_def run_defs)
  have nm: "name (inline_migration 2 False) = ''step''" by (simp add: inline_migration_def)
  from migrateTo_not_reversible [OF l c r i _ _ p f n] nm tm [of "\<lambda>k. ''fixed''"]
  have "migrateTo ?E (Version 1) world_at_two = (Inl (NotReversible 2 ''step''), ?wa)"
    by simp
  with tm l c0 i f n a show ?thesis by simp
qed

subsection \<open>A failing unit\<close>









subsection \<open>Successful calls\<close>











subsection \<open>The ledger table persists\<close>

text \<open>
  From a connection at rest, \<^verbatim>\<open>migrateTo\<close> neither creates nor removes the
  \<^verbatim>\<open>migrations\<close> table, whether it succeeds or fails; so after the constructor
  \<^verbatim>\<open>getCurrentVersion\<close> keeps returning a number.
\<close>

lemma migrateUpStep_table:
  assumes "idle (db w)" and tame: "tame env"
  shows "(versions_of (db (snd (migrateUpStep env ms v w))) = None) = (versions_of (db w) = None)"
proof -
  obtain r w' where st: "migrateUpStep env ms v w = (r, w')" by (cases "migrateUpStep env ms v w")
  from migrateUpStep_effect [OF assms(1) st tame] st show ?thesis
    by (cases r) (auto simp: versions_of_def)
qed

lemma migrateDownStep_table:
  assumes "idle (db w)" and tame: "tame env"
  shows "(versions_of (db (snd (migrateDownStep env ms v w))) = None) = (versions_of (db w) = None)"
proof -
  obtain r w' where st: "migrateDownStep env ms v w = (r, w')" by (cases "migrateDownStep env ms v w")
  from migrateDownStep_effect [OF assms(1) st tame] st show ?thesis
    by (cases r) (auto simp: versions_of_def)
qed

lemma upLoop_table:
  assumes tame: "tame env"
  shows "idle (db w) \<Longrightarrow>
     (versions_of (db (snd (upLoop env ms a t w))) = None) = (versions_of (db w) = None)"
proof (induction "nat (t + 1 - a)" arbitrary: a w)
  case 0
  then show ?case by (simp add: upLoop.simps [of env ms a t])
next
  case (Suc k)
  then have le: "a \<le> t" by simp
  obtain rs ws where st: "migrateUpStep env ms a w = (rs, ws)" by (cases "migrateUpStep env ms a w")
  from migrateUpStep_effect [OF Suc.prems st tame] have iws: "idle (db ws)" by simp
  from migrateUpStep_table [OF Suc.prems tame, of ms a] st
  have tb: "(versions_of (db ws) = None) = (versions_of (db w) = None)" by simp
  show ?case
  proof (cases rs)
    case (Inl e)
    with le st tb show ?thesis by (simp add: upLoop.simps [of env ms a t])
  next
    case (Inr u)
    have k: "k = nat (t + 1 - (a + 1))" using Suc.hyps(2) by simp
    from Suc.hyps(1) [OF k iws] tb Inr le st show ?thesis
      by (simp add: upLoop.simps [of env ms a t])
  qed
qed

lemma downLoop_table:
  assumes tame: "tame env"
  shows "idle (db w) \<Longrightarrow>
     (versions_of (db (snd (downLoop env ms a t w))) = None) = (versions_of (db w) = None)"
proof (induction "nat (a - t)" arbitrary: a w)
  case 0
  then show ?case by (simp add: downLoop.simps [of env ms a t])
next
  case (Suc k)
  then have lt: "t < a" by simp
  obtain rs ws where st: "migrateDownStep env ms a w = (rs, ws)"
    by (cases "migrateDownStep env ms a w")
  from migrateDownStep_effect [OF Suc.prems st tame] have iws: "idle (db ws)" by simp
  from migrateDownStep_table [OF Suc.prems tame, of ms a] st
  have tb: "(versions_of (db ws) = None) = (versions_of (db w) = None)" by simp
  show ?case
  proof (cases rs)
    case (Inl e)
    with lt st tb show ?thesis by (simp add: downLoop.simps [of env ms a t])
  next
    case (Inr u)
    have k: "k = nat (a - 1 - t)" using Suc.hyps(2) by simp
    from Suc.hyps(1) [OF k iws] tb Inr lt st show ?thesis
      by (simp add: downLoop.simps [of env ms a t])
  qed
qed

lemma migrateTo_keeps_table:
  assumes "idle (db w)" and tame: "tame env"
  shows "(versions_of (db (snd (migrateTo env tgt w))) = None) = (versions_of (db w) = None)"
proof -
  obtain rl wa where l: "loadMigrations env w = (rl, wa)" by (cases "loadMigrations env w")
  have da: "db wa = db w" using loadMigrations_db [of env w] l by simp
  show ?thesis
  proof (cases rl)
    case (Inl e)
    with l da show ?thesis by (simp add: migrateTo_def)
  next
    case (Inr ms)
    note rl = this
    show ?thesis
    proof (cases "getCurrentVersion (db wa)")
      case (Inl e)
      with l rl da show ?thesis by (simp add: migrateTo_def)
    next
      case (Inr cur)
      note cur = this
      obtain rt wb where r: "resolveTarget env tgt wa = (rt, wb)"
        by (cases "resolveTarget env tgt wa")
      have dw: "db wb = db w" using resolveTarget_db [of env tgt wa] r da by simp
      show ?thesis
      proof (cases rt)
        case (Inl e)
        with l rl cur r dw show ?thesis by (simp add: migrateTo_def)
      next
        case (Inr t)
        from assms dw have iwb: "idle (db wb)" by simp
        from l rl have l': "loadMigrations env w = (Inr ms, wa)" by simp
        from r Inr have r': "resolveTarget env tgt wa = (Inr t, wb)" by simp
        from migrateTo_steps [OF l' cur r'] upLoop_table [OF tame iwb, of ms "cur + 1" t]
          downLoop_table [OF tame iwb, of ms cur t] dw
        show ?thesis by (simp add: migrateUp_def migrateDown_def)
      qed
    qed
  qed
qed

lemma getCurrentVersion_after_migrateTo:
  assumes "idle (db w)" and "versions_of (db w) \<noteq> None" and tame: "tame env"
  shows "\<exists>n. getCurrentVersion (db (snd (migrateTo env tgt w))) = Inr n"
proof -
  from migrateTo_keeps_table [OF assms(1) tame, of tgt] assms(2)
  have "ledger (live (raw (db (snd (migrateTo env tgt w))))) \<noteq> None"
    by (simp add: versions_of_def)
  then show ?thesis
    by (auto simp: getCurrentVersion_def select_max_version_def)
qed

end
